theory Spec2Isabelle
  imports Complex_Main "HOL-Library.Multiset"
begin

section \<open>JavaScript strings\<close>

text \<open>
  A JavaScript string is modelled as a \<^typ>\<open>string\<close>, one \<^typ>\<open>char\<close> per code unit, so
  the model covers the strings whose code units are below \<^verbatim>\<open>0x100\<close>. Among these the class
  \<^verbatim>\<open>\s\<close> of a regular expression and the white space removed by \<^verbatim>\<open>trim()\<close> are the same
  seven: tab, line feed, vertical tab, form feed, carriage return, space and the no-break
  space \<^verbatim>\<open>0xA0\<close>. The class \<^verbatim>\<open>\d\<close> is \<^verbatim>\<open>0\<close> to \<^verbatim>\<open>9\<close>.
\<close>

definition isWhiteSpace :: "char \<Rightarrow> bool" where
  "isWhiteSpace c =
     (c \<in> set [CHR 0x09, CHR 0x0A, CHR 0x0B, CHR 0x0C, CHR 0x0D, CHR '' '', CHR 0xA0])"

definition isDigit :: "char \<Rightarrow> bool" where
  "isDigit c = (c \<in> set ''0123456789'')"

definition digitVal :: "char \<Rightarrow> int" where
  "digitVal c = int (of_char c) - 48"

text \<open>
  The case mappings act on one code unit at a time. Below \<^verbatim>\<open>0x100\<close> the letters with two
  cases are the 26 of ASCII and the 30 from \<^verbatim>\<open>0xC0\<close> to \<^verbatim>\<open>0xDE\<close> (upper) and \<^verbatim>\<open>0xE0\<close> to
  \<^verbatim>\<open>0xFE\<close> (lower), the signs \<^verbatim>\<open>0xD7\<close> and \<^verbatim>\<open>0xF7\<close> apart. Three code units have an upper
  case that is not one code unit below \<^verbatim>\<open>0x100\<close>: \<^verbatim>\<open>0xB5\<close> (to \<^verbatim>\<open>U+039C\<close>), \<^verbatim>\<open>0xDF\<close> (to the two
  letters \<^verbatim>\<open>SS\<close>) and \<^verbatim>\<open>0xFF\<close> (to \<^verbatim>\<open>U+0178\<close>); \<^verbatim>\<open>toUpperCase\<close> is modelled on the strings
  without these three.
\<close>

definition lowerLetters :: string where
  "lowerLetters = ''abcdefghijklmnopqrstuvwxyz'' @
     [CHR 0xE0, CHR 0xE1, CHR 0xE2, CHR 0xE3, CHR 0xE4, CHR 0xE5, CHR 0xE6, CHR 0xE7,
      CHR 0xE8, CHR 0xE9, CHR 0xEA, CHR 0xEB, CHR 0xEC, CHR 0xED, CHR 0xEE, CHR 0xEF,
      CHR 0xF0, CHR 0xF1, CHR 0xF2, CHR 0xF3, CHR 0xF4, CHR 0xF5, CHR 0xF6, CHR 0xF8,
      CHR 0xF9, CHR 0xFA, CHR 0xFB, CHR 0xFC, CHR 0xFD, CHR 0xFE]"

definition upperLetters :: string where
  "upperLetters = ''ABCDEFGHIJKLMNOPQRSTUVWXYZ'' @
     [CHR 0xC0, CHR 0xC1, CHR 0xC2, CHR 0xC3, CHR 0xC4, CHR 0xC5, CHR 0xC6, CHR 0xC7,
      CHR 0xC8, CHR 0xC9, CHR 0xCA, CHR 0xCB, CHR 0xCC, CHR 0xCD, CHR 0xCE, CHR 0xCF,
      CHR 0xD0, CHR 0xD1, CHR 0xD2, CHR 0xD3, CHR 0xD4, CHR 0xD5, CHR 0xD6, CHR 0xD8,
      CHR 0xD9, CHR 0xDA, CHR 0xDB, CHR 0xDC, CHR 0xDD, CHR 0xDE]"

definition toUpperChar :: "char \<Rightarrow> char" where
  "toUpperChar c =
     (case map_of (zip lowerLetters upperLetters) c of Some u \<Rightarrow> u | None \<Rightarrow> c)"

definition toLowerChar :: "char \<Rightarrow> char" where
  "toLowerChar c =
     (case map_of (zip upperLetters lowerLetters) c of Some l \<Rightarrow> l | None \<Rightarrow> c)"

definition toUpperCase :: "string \<Rightarrow> string" where
  "toUpperCase s = map toUpperChar s"

definition toLowerCase :: "string \<Rightarrow> string" where
  "toLowerCase s = map toLowerChar s"

text \<open>\<^verbatim>\<open>s.trim()\<close>: white space is removed from both ends.\<close>

definition trim :: "string \<Rightarrow> string" where
  "trim s = rev (dropWhile isWhiteSpace (rev (dropWhile isWhiteSpace s)))"

text \<open>\<^verbatim>\<open>s.replace(/\s+/g, " ")\<close>: every maximal run of white space becomes one space.\<close>

function replaceWhiteSpaceRuns :: "string \<Rightarrow> string" where
  "replaceWhiteSpaceRuns [] = []"
| "replaceWhiteSpaceRuns (c # cs) =
     (if isWhiteSpace c then CHR '' '' # replaceWhiteSpaceRuns (dropWhile isWhiteSpace cs)
      else c # replaceWhiteSpaceRuns cs)"
  by pat_completeness auto
termination
  by (relation "measure length") (auto simp: less_Suc_eq_le length_dropWhile_le)

text \<open>A string is \<open>trimmed\<close> when neither end is white space.\<close>

definition trimmed :: "string \<Rightarrow> bool" where
  "trimmed s = (s = [] \<or> (\<not> isWhiteSpace (hd s) \<and> \<not> isWhiteSpace (last s)))"

text \<open>
  \<^verbatim>\<open>s.match(/\d+/g)\<close>: the maximal runs of digits, left to right. The empty list stands
  for the \<^verbatim>\<open>null\<close> that \<^verbatim>\<open>match\<close> returns when nothing matches.
\<close>

function matchDigits :: "string \<Rightarrow> string list" where
  "matchDigits s =
     (case dropWhile (\<lambda>c. \<not> isDigit c) s of
        [] \<Rightarrow> []
      | d # r \<Rightarrow> takeWhile isDigit (d # r) # matchDigits (dropWhile isDigit (d # r)))"
  by pat_completeness auto
termination
proof (relation "measure length")
  show "wf (measure length)" by simp
next
  fix s :: string and d r
  assume a: "dropWhile (\<lambda>c. \<not> isDigit c) s = d # r"
  have "length (d # r) \<le> length s"
    using a length_dropWhile_le [of "\<lambda>c. \<not> isDigit c" s] by simp
  moreover have "isDigit d"
    using a hd_dropWhile [of "\<lambda>c. \<not> isDigit c" s] by auto
  ultimately show "(dropWhile isDigit (d # r), s) \<in> measure length"
    using length_dropWhile_le [of isDigit r] by simp
qed

declare matchDigits.simps [simp del]

text \<open>
  \<^verbatim>\<open>parseInt(ds, 10)\<close> on a string of digits. The value is exact below \<open>2\<^sup>5\<^sup>3\<close>; a longer run
  is rounded by JavaScript to a number that is still far above every bound it is compared
  with here.
\<close>

definition parseInt :: "string \<Rightarrow> int" where
  "parseInt ds = foldl (\<lambda>n c. 10 * n + digitVal c) 0 ds"

section \<open>Record normalizer\<close>

text \<open>
  \<^verbatim>\<open>normalizeCourse\<close> (print list, lines 60 to 63, and admin console): the test
  \<^verbatim>\<open>!course\<close> is true of the empty string only, and comes before the trimming.
\<close>

definition normalizeCourse :: "string \<Rightarrow> string" where
  "normalizeCourse course =
     (if course = [] then ''UNKNOWN''
      else replaceWhiteSpaceRuns (toUpperCase (trim course)))"

text \<open>
  \<^verbatim>\<open>normalizeBatchYear\<close> (print list, lines 66 to 86). \<^verbatim>\<open>null\<close> is \<^const>\<open>None\<close>. The test
  \<^verbatim>\<open>isNaN(year)\<close> never succeeds on a run of digits and has no branch here.
\<close>

definition normalizeBatchYear :: "string \<Rightarrow> int option" where
  "normalizeBatchYear batch =
     (if batch = [] then None
      else case matchDigits batch of
        [] \<Rightarrow> None
      | n # _ \<Rightarrow>
          let year = parseInt n;
              year = (if 0 \<le> year \<and> year \<le> 99
                      then (if year \<le> 30 then 2000 + year else 1900 + year)
                      else year)
          in if year < 1980 \<or> year > 2030 then None else Some year)"

text \<open>
  The normalization as the specification words it: the two-digit rule is tied to the
  \<^emph>\<open>length\<close> of the run (one or two digits), a longer run is the year itself.
\<close>

definition spec_normalizeBatchYear :: "string \<Rightarrow> int option" where
  "spec_normalizeBatchYear batch =
     (let run = takeWhile isDigit (dropWhile (\<lambda>c. \<not> isDigit c) batch)
      in if run = [] then None
         else let v = parseInt run;
                  year = (if length run \<le> 2
                          then (if v \<le> 30 then 2000 + v else 1900 + v)
                          else v)
              in if 1980 \<le> year \<and> year \<le> 2030 then Some year else None)"

section \<open>Attendee records and the attendance store\<close>

text \<open>
  The table \<^verbatim>\<open>attendees\<close> of \<^verbatim>\<open>convex/schema.ts\<close>. The five descriptive fields are a
  record of their own: they are the arguments of \<^verbatim>\<open>addAttendee\<close>, the rows that the CSV
  import produces, and the part of a document that the spread \<^verbatim>\<open>...args\<close> copies. An
  optional field that is \<^verbatim>\<open>undefined\<close> is \<^const>\<open>None\<close>. The identifier \<^verbatim>\<open>_id\<close> is a
  natural number, the check-in time a number of milliseconds.
\<close>

record attendee_fields =
  fullName :: string
  course :: string
  shift :: "string option"
  batch :: string
  contactNo :: "string option"

record attendee = attendee_fields +
  doc_id :: nat
  isPresent :: bool
  checkedInAt :: "int option"





















section \<open>Attendance statistics\<close>

text \<open>
  JavaScript numbers are IEEE 754 doubles. A double is modelled by the rational number it
  stands for, and an arithmetic operation by the exact operation followed by
  \<open>toDouble\<close>, the rounding to the nearest number with a 53-bit significand, ties to the
  even significand. The exponent range is not modelled: the quotient of two lengths and its
  product with 100 lie far inside it. \<open>bitLength n\<close> is the number of binary digits of
  \<open>n\<close>, and \<open>floorLog2 q\<close> the exponent \<open>e\<close> with \<open>2\<^sup>e \<le> q < 2\<^sup>e\<^sup>+\<^sup>1\<close> for a positive \<open>q\<close>.
\<close>

function bitLength :: "int \<Rightarrow> int" where
  "bitLength n = (if n \<le> 0 then 0 else 1 + bitLength (n div 2))"
  by pat_completeness auto
termination
  by (relation "measure nat") auto

declare bitLength.simps [simp del]

definition floorLog2 :: "rat \<Rightarrow> int" where
  "floorLog2 q =
     (let (n, d) = quotient_of q;
          e = bitLength n - bitLength d
      in if 2 powi e \<le> q then e else e - 1)"

definition roundHalfEven :: "rat \<Rightarrow> int" where
  "roundHalfEven r =
     (let f = \<lfloor>r\<rfloor>; d = r - of_int f
      in if d < 1 / 2 then f else if 1 / 2 < d then f + 1 else if even f then f else f + 1)"

definition toDouble :: "rat \<Rightarrow> rat" where
  "toDouble q =
     (if q = 0 then 0
      else let e = floorLog2 \<bar>q\<bar> - 52 in of_int (roundHalfEven (q / 2 powi e)) * 2 powi e)"

text \<open>
  \<^verbatim>\<open>Math.round\<close> gives the nearest integer, and of two nearest integers the greater one.
\<close>

definition Math_round :: "rat \<Rightarrow> int" where
  "Math_round x = \<lfloor>x + 1 / 2\<rfloor>"

text \<open>\<^verbatim>\<open>getStats\<close> (\<^verbatim>\<open>convex/attendees.ts\<close>, lines 57 to 71), on the collected table.\<close>

record stats =
  total :: int
  present :: int
  absent :: int
  percentage :: int

definition getStats :: "attendee list \<Rightarrow> stats" where
  "getStats all =
     (let present = length (filter isPresent all);
          absent = int (length all) - int present
      in \<lparr>total = int (length all),
          present = int present,
          absent = absent,
          percentage =
            (if length all > 0
             then Math_round (toDouble (toDouble (of_nat present / of_nat (length all)) * 100))
             else 0)\<rparr>)"

text \<open>
  The percentage as the specification words it, \<^verbatim>\<open>round(present/total*100)\<close> and 0 when the
  total is 0: the quotient and the product are those of the rational numbers, and the
  result is the nearest integer, of two nearest integers the greater one.
\<close>

definition spec_percentage :: "int \<Rightarrow> int \<Rightarrow> int" where
  "spec_percentage present' total' =
     (if total' = 0 then 0 else \<lfloor>(of_int present' / of_int total' * 100 :: rat) + 1 / 2\<rfloor>)"

section \<open>Filtering and sorting\<close>

text \<open>\<^verbatim>\<open>s.includes(sub)\<close>: \<open>sub\<close> occurs in \<open>s\<close> as a contiguous substring.\<close>

fun startsWith :: "string \<Rightarrow> string \<Rightarrow> bool" where
  "startsWith s [] = True"
| "startsWith [] (p # ps) = False"
| "startsWith (c # cs) (p # ps) = (c = p \<and> startsWith cs ps)"

fun includes_str :: "string \<Rightarrow> string \<Rightarrow> bool" where
  "includes_str [] sub = (sub = [])"
| "includes_str (c # cs) sub = (startsWith (c # cs) sub \<or> includes_str cs sub)"

text \<open>
  \<^verbatim>\<open>globalFilterFn\<close> of the editable roster (\<^verbatim>\<open>AttendanceTable.tsx\<close>, lines 323 to 328) and
  of the print view (lines 330 to 335 there), the same text in both: the search over the
  full name and the contact number. A missing contact number counts as the empty string.
\<close>

definition globalFilterFn :: "attendee \<Rightarrow> string \<Rightarrow> bool" where
  "globalFilterFn row filterValue =
     (let search = toLowerCase filterValue;
          fullName' = toLowerCase (fullName row);
          contactNo' = (case contactNo row of None \<Rightarrow> [] | Some c \<Rightarrow> toLowerCase c)
      in includes_str fullName' search \<or> includes_str contactNo' search)"

text \<open>
  The three-way presence filter and the filter of the admin console
  (\<^verbatim>\<open>CSVImport.tsx\<close>, \<^verbatim>\<open>filteredAttendees\<close>, lines 599 to 614). Its search runs over five
  fields; an optional field that is missing does not match.
\<close>

datatype show_filter = ShowAll | ShowPresent | ShowAbsent

definition matchesShow :: "show_filter \<Rightarrow> attendee \<Rightarrow> bool" where
  "matchesShow showFilter a =
     (showFilter = ShowAll \<or> (showFilter = ShowPresent \<and> isPresent a) \<or>
      (showFilter = ShowAbsent \<and> \<not> isPresent a))"

definition matchesSearch :: "string \<Rightarrow> attendee \<Rightarrow> bool" where
  "matchesSearch searchTerm a =
     (let search = toLowerCase searchTerm
      in includes_str (toLowerCase (fullName a)) search \<or>
         includes_str (toLowerCase (course a)) search \<or>
         (case shift a of None \<Rightarrow> False | Some s \<Rightarrow> includes_str (toLowerCase s) search) \<or>
         includes_str (toLowerCase (batch a)) search \<or>
         (case contactNo a of None \<Rightarrow> False | Some c \<Rightarrow> includes_str (toLowerCase c) search))"

definition filteredAttendees ::
  "attendee list \<Rightarrow> string \<Rightarrow> string \<Rightarrow> string \<Rightarrow> show_filter \<Rightarrow> attendee list" where
  "filteredAttendees attendees' searchTerm courseFilter batchFilter showFilter =
     filter (\<lambda>a.
        matchesSearch searchTerm a \<and>
        (courseFilter = ''all'' \<or> course a = courseFilter) \<and>
        (batchFilter = ''all'' \<or> batch a = batchFilter) \<and>
        matchesShow showFilter a) attendees'"

text \<open>\<^verbatim>\<open>filteredData\<close> of the print view (lines 112 to 129).\<close>

definition filteredData ::
  "attendee list \<Rightarrow> string \<Rightarrow> string \<Rightarrow> string \<Rightarrow> show_filter \<Rightarrow> attendee list" where
  "filteredData attendees' courseFilter batchFilter shiftFilter showFilter =
     filter (\<lambda>a.
        (courseFilter = ''all'' \<or> course a = courseFilter) \<and>
        (batchFilter = ''all'' \<or> batch a = batchFilter) \<and>
        (shiftFilter = ''all'' \<or> shift a = Some shiftFilter) \<and>
        matchesShow showFilter a) attendees'"

text \<open>
  \<^verbatim>\<open>sortedDataForExport\<close> of the print view (lines 132 to 175). The two values that the
  comparator compares are strings or numbers, of the same kind on both sides; strings are
  compared code unit by code unit. \<^verbatim>\<open>Array.prototype.sort\<close> is stable, and with this
  comparator, which compares keys, its result is the one that inserting the elements from
  the right into a sorted list gives.
\<close>

datatype sort_value = StrVal string | NumVal int

fun string_less :: "string \<Rightarrow> string \<Rightarrow> bool" where
  "string_less [] [] = False"
| "string_less [] (b # bs) = True"
| "string_less (a # as) [] = False"
| "string_less (a # as) (b # bs) =
     ((of_char a :: nat) < of_char b \<or> (a = b \<and> string_less as bs))"

fun value_less :: "sort_value \<Rightarrow> sort_value \<Rightarrow> bool" where
  "value_less (StrVal a) (StrVal b) = string_less a b"
| "value_less (NumVal a) (NumVal b) = (a < b)"
| "value_less _ _ = False"

datatype sort_order = Asc | Desc

definition sortValue :: "string \<Rightarrow> attendee \<Rightarrow> sort_value" where
  "sortValue sortColumn a =
     (if sortColumn = ''fullName'' then StrVal (toLowerCase (fullName a))
      else if sortColumn = ''course'' then StrVal (normalizeCourse (course a))
      else if sortColumn = ''batch''
        then NumVal (case normalizeBatchYear (batch a) of None \<Rightarrow> 9999 | Some y \<Rightarrow> y)
      else if sortColumn = ''shift''
        then StrVal (toLowerCase (case shift a of None \<Rightarrow> [] | Some s \<Rightarrow> s))
      else if sortColumn = ''contactNo''
        then StrVal (case contactNo a of None \<Rightarrow> [] | Some c \<Rightarrow> c)
      else if sortColumn = ''isPresent'' then NumVal (if isPresent a then 1 else 0)
      else StrVal (toLowerCase (fullName a)))"

definition compareFn :: "string \<Rightarrow> sort_order \<Rightarrow> attendee \<Rightarrow> attendee \<Rightarrow> int" where
  "compareFn sortColumn sortOrder a b =
     (let aVal = sortValue sortColumn a; bVal = sortValue sortColumn b
      in if value_less aVal bVal then (if sortOrder = Asc then - 1 else 1)
         else if value_less bVal aVal then (if sortOrder = Asc then 1 else - 1)
         else 0)"

fun insertSorted :: "('a \<Rightarrow> 'a \<Rightarrow> int) \<Rightarrow> 'a \<Rightarrow> 'a list \<Rightarrow> 'a list" where
  "insertSorted cmp x [] = [x]"
| "insertSorted cmp x (y # ys) =
     (if cmp x y \<le> 0 then x # y # ys else y # insertSorted cmp x ys)"

definition stableSort :: "('a \<Rightarrow> 'a \<Rightarrow> int) \<Rightarrow> 'a list \<Rightarrow> 'a list" where
  "stableSort cmp xs = foldr (insertSorted cmp) xs []"

definition sortedDataForExport :: "attendee list \<Rightarrow> string \<Rightarrow> sort_order \<Rightarrow> attendee list" where
  "sortedDataForExport filteredData' sortColumn sortOrder =
     stableSort (compareFn sortColumn sortOrder) filteredData'"

text \<open>
  The order of two normalized batch years in which no year comes last: this is what an
  ascending sort by batch has to respect.
\<close>

fun year_le :: "int option \<Rightarrow> int option \<Rightarrow> bool" where
  "year_le _ None = True"
| "year_le None (Some y) = False"
| "year_le (Some x) (Some y) = (x \<le> y)"

definition batchKey :: "attendee \<Rightarrow> int" where
  "batchKey a = (case normalizeBatchYear (batch a) of None \<Rightarrow> 9999 | Some y \<Rightarrow> y)"

section \<open>CSV import and export\<close>

text \<open>
  \<^verbatim>\<open>s.split(c)\<close> for a separator of one character, \<^verbatim>\<open>xs.join(sep)\<close>,
  \<^verbatim>\<open>xs.findIndex(p)\<close> with \<^const>\<open>None\<close> for \<^verbatim>\<open>-1\<close>, and the element \<^verbatim>\<open>cols[i]\<close> of an
  array, which is \<^verbatim>\<open>undefined\<close> beyond its end. A cell is truthy when it is defined and not
  the empty string; \<^verbatim>\<open>v || ""\<close> is \<open>orEmpty v\<close>.
\<close>

fun split_on :: "char \<Rightarrow> string \<Rightarrow> string list" where
  "split_on c [] = [[]]"
| "split_on c (x # xs) =
     (if x = c then [] # split_on c xs
      else case split_on c xs of
             [] \<Rightarrow> [[x]]
           | r # rs \<Rightarrow> (x # r) # rs)"

fun join :: "string \<Rightarrow> string list \<Rightarrow> string" where
  "join sep [] = []"
| "join sep [x] = x"
| "join sep (x # y # ys) = x @ sep @ join sep (y # ys)"

fun findIndex :: "('a \<Rightarrow> bool) \<Rightarrow> 'a list \<Rightarrow> nat option" where
  "findIndex P [] = None"
| "findIndex P (x # xs) = (if P x then Some 0 else map_option Suc (findIndex P xs))"

definition cell :: "string list \<Rightarrow> nat \<Rightarrow> string option" where
  "cell cols i = (if i < length cols then Some (cols ! i) else None)"

definition truthy :: "string option \<Rightarrow> bool" where
  "truthy v = (v \<noteq> None \<and> v \<noteq> Some [])"

definition orEmpty :: "string option \<Rightarrow> string" where
  "orEmpty v = (case v of None \<Rightarrow> [] | Some s \<Rightarrow> s)"

text \<open>
  The two alerts of the import. \<open>MissingColumns\<close> is the message
  \<^verbatim>\<open>CSV must have 'name', 'course', and 'batch' columns\<close>, \<open>ParsingError m\<close> the message
  \<^verbatim>\<open>CSV parsing error: \<close> followed by \<open>m\<close>. The result of an import is the alert, if
  one was raised, and the rows.
\<close>

datatype alert = MissingColumns | ParsingError string

text \<open>
  \<^verbatim>\<open>parseCSV\<close> as the admin console first had it (\<^verbatim>\<open>CSVImport.tsx\<close>, lines 102 to 139): the
  text is cut into lines and cells by hand.
\<close>

definition csvLines :: "string \<Rightarrow> string list" where
  "csvLines text = split_on (CHR 0x0A) (trim text)"

definition csvHeaders :: "string \<Rightarrow> string list" where
  "csvHeaders text = map (\<lambda>h. toLowerCase (trim h)) (split_on CHR '','' (hd (csvLines text)))"

definition csvCols :: "string \<Rightarrow> string list" where
  "csvCols line = map trim (split_on CHR '','' line)"

fun parseRows ::
  "nat \<Rightarrow> nat \<Rightarrow> nat \<Rightarrow> nat option \<Rightarrow> nat option \<Rightarrow> string list \<Rightarrow>
   attendee_fields list \<Rightarrow> attendee_fields list" where
  "parseRows nameIdx courseIdx batchIdx shiftIdx contactIdx [] data = data"
| "parseRows nameIdx courseIdx batchIdx shiftIdx contactIdx (line # lines) data =
     (let cols = csvCols line
      in if truthy (cell cols nameIdx)
         then parseRows nameIdx courseIdx batchIdx shiftIdx contactIdx lines
                (data @
                 [\<lparr>fullName = orEmpty (cell cols nameIdx),
                   course = orEmpty (cell cols courseIdx),
                   shift = (case shiftIdx of None \<Rightarrow> None | Some i \<Rightarrow> cell cols i),
                   batch = orEmpty (cell cols batchIdx),
                   contactNo = (case contactIdx of None \<Rightarrow> None | Some i \<Rightarrow> cell cols i)\<rparr>])
         else parseRows nameIdx courseIdx batchIdx shiftIdx contactIdx lines data)"

definition parseCSV_split :: "string \<Rightarrow> alert option \<times> attendee_fields list" where
  "parseCSV_split text =
     (let lines = csvLines text
      in if length lines < 2 then (None, [])
         else
           let headers = csvHeaders text;
               nameIdx = findIndex (\<lambda>h. includes_str h ''name'') headers;
               courseIdx = findIndex (\<lambda>h. includes_str h ''course'' \<or> includes_str h ''program'') headers;
               batchIdx = findIndex (\<lambda>h. includes_str h ''batch'' \<or> includes_str h ''year'') headers;
               shiftIdx = findIndex (\<lambda>h. includes_str h ''shift'') headers;
               contactIdx = findIndex (\<lambda>h. includes_str h ''contact'' \<or> includes_str h ''phone'' \<or>
                                           includes_str h ''mobile'') headers
           in case (nameIdx, courseIdx, batchIdx) of
                (Some n, Some c, Some b) \<Rightarrow> (None, parseRows n c b shiftIdx contactIdx (tl lines) [])
              | _ \<Rightarrow> (Some MissingColumns, []))"









text \<open>
  \<^verbatim>\<open>exportCSV\<close> (lines 830 to 863): \<^const>\<open>None\<close> when there is nothing to export, otherwise
  the text of the file. \<^verbatim>\<open>join\<close> writes a missing shift or contact number as the empty
  string. \<open>toLocaleString\<close> stands for \<^verbatim>\<open>new Date(t).toLocaleString()\<close>, which depends on
  the locale of the browser; a check-in time of 0 is falsy and written as the empty string.
\<close>

definition exportHeaders :: "string list" where
  "exportHeaders =
     [''Full Name'', ''Course'', ''Shift'', ''Batch'', ''Contact No.'', ''Present'', ''Checked In At'']"

definition exportRow :: "(int \<Rightarrow> string) \<Rightarrow> attendee \<Rightarrow> string list" where
  "exportRow toLocaleString a =
     [fullName a, course a, orEmpty (shift a), batch a, orEmpty (contactNo a),
      (if isPresent a then ''Yes'' else ''No''),
      (case checkedInAt a of
         None \<Rightarrow> []
       | Some t \<Rightarrow> if t = 0 then [] else toLocaleString t)]"

definition exportCSV :: "(int \<Rightarrow> string) \<Rightarrow> attendee list \<Rightarrow> string option" where
  "exportCSV toLocaleString attendees' =
     (if attendees' = [] then None
      else Some (join [CHR 0x0A]
             (join '','' exportHeaders # map (\<lambda>a. join '','' (exportRow toLocaleString a)) attendees')))"


definition rowOfCols ::
  "nat \<Rightarrow> nat \<Rightarrow> nat \<Rightarrow> nat option \<Rightarrow> nat option \<Rightarrow> string list \<Rightarrow> attendee_fields" where
  "rowOfCols n c b shiftIdx contactIdx cols =
     \<lparr>fullName = orEmpty (cell cols n),
      course = orEmpty (cell cols c),
      shift = (case shiftIdx of None \<Rightarrow> None | Some i \<Rightarrow> cell cols i),
      batch = orEmpty (cell cols b),
      contactNo = (case contactIdx of None \<Rightarrow> None | Some i \<Rightarrow> cell cols i)\<rparr>"





text \<open>
  The same for the parser that cuts the text by hand, which removes the white space around
  every cell and reads five columns only. A field is \<open>clean\<close> when it has no comma, no line
  feed and no white space at either end, and a record \<open>exportable_split\<close> when its name is
  not empty and its five fields are clean, a missing one counting as the empty string.
  \<open>reimported\<close> is the row that comes back for a record. \<open>rowText a z\<close> is the line of a
  record with \<open>z\<close> as its last cell, \<open>checkedInCell\<close> the last cell that the export
  writes, \<open>rtrim\<close> the removal of white space from the end.
\<close>

definition clean :: "string \<Rightarrow> bool" where
  "clean s = (CHR '','' \<notin> set s \<and> CHR 0x0A \<notin> set s \<and> trimmed s)"

definition exportable_split :: "attendee \<Rightarrow> bool" where
  "exportable_split a =
     (fullName a \<noteq> [] \<and> clean (fullName a) \<and> clean (course a) \<and> clean (batch a) \<and>
      clean (orEmpty (shift a)) \<and> clean (orEmpty (contactNo a)))"

definition reimported :: "attendee \<Rightarrow> attendee_fields" where
  "reimported a =
     \<lparr>fullName = fullName a, course = course a, shift = Some (orEmpty (shift a)),
      batch = batch a, contactNo = Some (orEmpty (contactNo a))\<rparr>"

definition rtrim :: "string \<Rightarrow> string" where
  "rtrim z = rev (dropWhile isWhiteSpace (rev z))"

definition rowText :: "attendee \<Rightarrow> string \<Rightarrow> string" where
  "rowText a z =
     fullName a @ CHR '','' # course a @ CHR '','' # orEmpty (shift a) @ CHR '','' # batch a @
     CHR '','' # orEmpty (contactNo a) @ CHR '','' # (if isPresent a then ''Yes'' else ''No'') @
     CHR '','' # z"

definition checkedInCell :: "(int \<Rightarrow> string) \<Rightarrow> attendee \<Rightarrow> string" where
  "checkedInCell toLocaleString a =
     (case checkedInAt a of None \<Rightarrow> [] | Some t \<Rightarrow> if t = 0 then [] else toLocaleString t)"

section \<open>Properties of the string operations\<close>

lemma isWhiteSpace_toUpperChar [simp]: "isWhiteSpace (toUpperChar c) = isWhiteSpace c"
  by (simp add: toUpperChar_def lowerLetters_def upperLetters_def isWhiteSpace_def)

lemma toUpperChar_idem [simp]: "toUpperChar (toUpperChar c) = toUpperChar c"
  by (simp add: toUpperChar_def lowerLetters_def upperLetters_def)

lemma toUpperChar_space [simp]: "toUpperChar CHR '' '' = CHR '' ''"
  by (simp add: toUpperChar_def lowerLetters_def upperLetters_def)

lemma case_maps_latin1:
  "toUpperCase [CHR 0xE9, CHR ''e'', CHR 0xF7, CHR ''1''] = [CHR 0xC9, CHR ''E'', CHR 0xF7, CHR ''1'']"
  "toLowerCase [CHR 0xC9, CHR ''E'', CHR 0xD7, CHR ''1''] = [CHR 0xE9, CHR ''e'', CHR 0xD7, CHR ''1'']"
  "trim [CHR 0xA0, CHR ''a'', CHR 0x09] = ''a''"
  by code_simp+

lemma toUpperCase_idem: "toUpperCase (toUpperCase s) = toUpperCase s"
  by (simp add: toUpperCase_def)

lemma dropWhile_hd_id: "xs \<noteq> [] \<Longrightarrow> \<not> P (hd xs) \<Longrightarrow> dropWhile P xs = xs"
  by (cases xs) auto

lemma trimmed_trim: "trimmed (trim s)"
proof (cases "trim s = []")
  case True
  then show ?thesis by (simp add: trimmed_def)
next
  case False
  let ?a = "dropWhile isWhiteSpace s"
  let ?b = "dropWhile isWhiteSpace (rev ?a)"
  from False have b: "?b \<noteq> []" by (simp add: trim_def)
  then have a: "?a \<noteq> []" by (metis dropWhile.simps(1) rev.simps(1))
  have l: "\<not> isWhiteSpace (hd ?b)" using b hd_dropWhile by blast
  have "last (trim s) = hd ?b" using b by (simp add: trim_def last_rev)
  moreover have "hd (trim s) = hd ?a"
  proof -
    have "hd (trim s) = last ?b" using b by (simp add: trim_def hd_rev)
    also have "\<dots> = last (rev ?a)"
      using b by (metis append_Nil2 last_appendR takeWhile_dropWhile_id)
    also have "\<dots> = hd ?a" using a by (simp add: last_rev)
    finally show ?thesis .
  qed
  moreover have "\<not> isWhiteSpace (hd ?a)" using a hd_dropWhile by blast
  ultimately show ?thesis using l by (simp add: trimmed_def)
qed

lemma trim_trimmed: "trimmed s \<Longrightarrow> trim s = s"
proof (cases s)
  case Nil
  then show ?thesis by (simp add: trim_def)
next
  case (Cons c cs)
  assume "trimmed s"
  with Cons have h: "\<not> isWhiteSpace c" and l: "\<not> isWhiteSpace (last s)"
    by (auto simp: trimmed_def)
  have "rev s \<noteq> []" using Cons by simp
  moreover have "hd (rev s) = last s" using Cons by (simp add: hd_rev)
  ultimately have "dropWhile isWhiteSpace (rev s) = rev s"
    using l by (simp add: dropWhile_hd_id)
  then show ?thesis using h Cons by (simp add: trim_def)
qed

lemma trim_eq_Nil: "trim s = [] \<longleftrightarrow> (\<forall>c\<in>set s. isWhiteSpace c)"
proof
  assume "trim s = []"
  then have "dropWhile isWhiteSpace (rev (dropWhile isWhiteSpace s)) = []"
    by (simp add: trim_def)
  then have "\<forall>c\<in>set (dropWhile isWhiteSpace s). isWhiteSpace c"
    by (simp add: dropWhile_eq_Nil_conv)
  then have "dropWhile isWhiteSpace s = []"
    using hd_dropWhile [of isWhiteSpace s] by (cases "dropWhile isWhiteSpace s") auto
  then show "\<forall>c\<in>set s. isWhiteSpace c" by (simp add: dropWhile_eq_Nil_conv)
next
  assume "\<forall>c\<in>set s. isWhiteSpace c"
  then have "dropWhile isWhiteSpace s = []" by simp
  then show "trim s = []" unfolding trim_def by (simp only: rev.simps dropWhile.simps)
qed

lemma trimmed_toUpperCase: "trimmed s \<Longrightarrow> trimmed (toUpperCase s)"
  by (cases s) (auto simp: trimmed_def toUpperCase_def hd_map last_map)

lemma replaceWhiteSpaceRuns_eq_Nil [simp]: "replaceWhiteSpaceRuns s = [] \<longleftrightarrow> s = []"
  by (cases s) auto

lemma hd_replaceWhiteSpaceRuns:
  "s \<noteq> [] \<Longrightarrow> \<not> isWhiteSpace (hd s) \<Longrightarrow> hd (replaceWhiteSpaceRuns s) = hd s"
  by (cases s) auto

lemma last_replaceWhiteSpaceRuns:
  "s \<noteq> [] \<Longrightarrow> \<not> isWhiteSpace (last s) \<Longrightarrow> last (replaceWhiteSpaceRuns s) = last s"
proof (induction s rule: replaceWhiteSpaceRuns.induct)
  case 1
  then show ?case by simp
next
  case (2 c cs)
  show ?case
  proof (cases "isWhiteSpace c")
    case True
    have ne: "dropWhile isWhiteSpace cs \<noteq> []"
    proof
      assume "dropWhile isWhiteSpace cs = []"
      then have "\<forall>x\<in>set cs. isWhiteSpace x" by (simp add: dropWhile_eq_Nil_conv)
      with True have "isWhiteSpace (last (c # cs))" by (cases cs) auto
      with 2(4) show False by simp
    qed
    then have cs: "cs \<noteq> []" by auto
    have eq: "last (dropWhile isWhiteSpace cs) = last cs"
      using ne by (metis last_appendR takeWhile_dropWhile_id)
    define X where "X = replaceWhiteSpaceRuns (dropWhile isWhiteSpace cs)"
    have "\<not> isWhiteSpace (last cs)" using 2(4) cs by simp
    then have "last X = last cs"
      using 2(1) [OF True ne] eq by (simp add: X_def)
    moreover have "replaceWhiteSpaceRuns (c # cs) = CHR '' '' # X"
      using True by (simp add: X_def)
    moreover have "X \<noteq> []" using ne by (simp add: X_def)
    moreover have "last (c # cs) = last cs" using cs by simp
    ultimately show ?thesis by simp
  next
    case False
    with 2 show ?thesis by (cases cs) auto
  qed
qed

lemma trimmed_replaceWhiteSpaceRuns: "trimmed s \<Longrightarrow> trimmed (replaceWhiteSpaceRuns s)"
  by (cases "s = []")
    (auto simp: trimmed_def hd_replaceWhiteSpaceRuns last_replaceWhiteSpaceRuns)

lemma dropWhile_replaceWhiteSpaceRuns:
  "s = [] \<or> \<not> isWhiteSpace (hd s) \<Longrightarrow>
   dropWhile isWhiteSpace (replaceWhiteSpaceRuns s) = replaceWhiteSpaceRuns s"
  by (cases s) auto

lemma replaceWhiteSpaceRuns_idem:
  "replaceWhiteSpaceRuns (replaceWhiteSpaceRuns s) = replaceWhiteSpaceRuns s"
proof (induction s rule: replaceWhiteSpaceRuns.induct)
  case 1
  then show ?case by simp
next
  case (2 c cs)
  show ?case
  proof (cases "isWhiteSpace c")
    case True
    have "dropWhile isWhiteSpace cs = [] \<or> \<not> isWhiteSpace (hd (dropWhile isWhiteSpace cs))"
      using hd_dropWhile by blast
    then show ?thesis
      using True 2(1) [OF True] by (simp add: dropWhile_replaceWhiteSpaceRuns isWhiteSpace_def)
  next
    case False
    then show ?thesis using 2(2) by simp
  qed
qed

lemma toUpperCase_replaceWhiteSpaceRuns:
  "toUpperCase (replaceWhiteSpaceRuns s) = replaceWhiteSpaceRuns (toUpperCase s)"
proof (induction s rule: replaceWhiteSpaceRuns.induct)
  case 1
  then show ?case by (simp add: toUpperCase_def)
next
  case (2 c cs)
  have "dropWhile isWhiteSpace (map toUpperChar cs) = map toUpperChar (dropWhile isWhiteSpace cs)"
    by (simp add: dropWhile_map comp_def)
  with 2 show ?case by (simp add: toUpperCase_def)
qed

text \<open>The three steps of the canonicalization, applied twice, give what they give once.\<close>

lemma canon_steps_idem:
  "replaceWhiteSpaceRuns (toUpperCase (trim (replaceWhiteSpaceRuns (toUpperCase (trim s))))) =
   replaceWhiteSpaceRuns (toUpperCase (trim s))"
proof -
  let ?k = "replaceWhiteSpaceRuns (toUpperCase (trim s))"
  have "trimmed ?k"
    by (intro trimmed_replaceWhiteSpaceRuns trimmed_toUpperCase trimmed_trim)
  then have "trim ?k = ?k" by (rule trim_trimmed)
  then have "replaceWhiteSpaceRuns (toUpperCase (trim ?k)) = replaceWhiteSpaceRuns (toUpperCase ?k)"
    by simp
  also have "\<dots> = ?k"
    by (simp add: toUpperCase_replaceWhiteSpaceRuns toUpperCase_idem replaceWhiteSpaceRuns_idem)
  finally show ?thesis .
qed

lemma canon_steps_eq_Nil:
  "replaceWhiteSpaceRuns (toUpperCase (trim s)) = [] \<longleftrightarrow> (\<forall>c\<in>set s. isWhiteSpace c)"
  by (simp add: toUpperCase_def trim_eq_Nil)

section \<open>Course canonicalization\<close>

text \<open>
  Claim C10. A course string that is not empty and holds white space only is canonicalized
  to the empty string, not to the sentinel: among the strings of white space the sentinel
  \<^verbatim>\<open>UNKNOWN\<close> is the result for the empty string and for no other, since the emptiness
  test comes before the trimming.
\<close>

theorem normalizeCourse_white_space_only:
  assumes "\<forall>c\<in>set s. isWhiteSpace c"
  shows "(s \<noteq> [] \<longrightarrow> normalizeCourse s = []) \<and> (normalizeCourse s = ''UNKNOWN'' \<longleftrightarrow> s = [])"
proof -
  have "replaceWhiteSpaceRuns (toUpperCase (trim s)) = []"
    using assms canon_steps_eq_Nil by blast
  then show ?thesis by (cases "s = []") (simp_all add: normalizeCourse_def)
qed

theorem normalizeCourse_white_space_only_witness:
  "normalizeCourse '' '' = [] \<and> normalizeCourse '' '' \<noteq> ''UNKNOWN''"
proof -
  have h: "\<forall>c\<in>set '' ''. isWhiteSpace c" by (simp add: isWhiteSpace_def)
  show ?thesis using h normalizeCourse_white_space_only [OF h] by simp
qed

text \<open>
  Claim C4, as the specification states it, fails on a string of white space, a blank or a
  no-break space: it is canonicalized to the empty string, and the empty string to the
  sentinel. Likewise the empty string and a blank are equal after trimming, upper-casing
  and collapsing, and get different keys.
\<close>

theorem normalizeCourse_idempotent_counterexample:
  "normalizeCourse (normalizeCourse '' '') \<noteq> normalizeCourse '' '' \<and>
   normalizeCourse [CHR 0xA0] = [] \<and> normalizeCourse [] = ''UNKNOWN'' \<and>
   replaceWhiteSpaceRuns (toUpperCase (trim [])) = replaceWhiteSpaceRuns (toUpperCase (trim '' '')) \<and>
   normalizeCourse [] \<noteq> normalizeCourse '' ''"
  by code_simp

text \<open>
  Claim C4, amended. Canonicalization is idempotent on every course string that is empty
  or holds a character that is not white space; and two strings that are both non-empty
  (or both empty) and equal after trimming, upper-casing and collapsing get the same key.
\<close>

theorem normalizeCourse_idempotent:
  "(s = [] \<or> (\<exists>c\<in>set s. \<not> isWhiteSpace c) \<longrightarrow>
      normalizeCourse (normalizeCourse s) = normalizeCourse s) \<and>
   ((x = [] \<longleftrightarrow> y = []) \<and>
    replaceWhiteSpaceRuns (toUpperCase (trim x)) = replaceWhiteSpaceRuns (toUpperCase (trim y)) \<longrightarrow>
      normalizeCourse x = normalizeCourse y)"
proof (intro conjI impI)
  assume a: "s = [] \<or> (\<exists>c\<in>set s. \<not> isWhiteSpace c)"
  show "normalizeCourse (normalizeCourse s) = normalizeCourse s"
  proof (cases "s = []")
    case True
    then show ?thesis
      by (simp add: normalizeCourse_def trim_def toUpperCase_def toUpperChar_def lowerLetters_def upperLetters_def isWhiteSpace_def)
  next
    case False
    with a have "\<not> (\<forall>c\<in>set s. isWhiteSpace c)" by blast
    then have "replaceWhiteSpaceRuns (toUpperCase (trim s)) \<noteq> []"
      by (simp only: canon_steps_eq_Nil not_False_eq_True)
    with False show ?thesis by (simp add: normalizeCourse_def canon_steps_idem)
  qed
next
  assume "(x = [] \<longleftrightarrow> y = []) \<and>
    replaceWhiteSpaceRuns (toUpperCase (trim x)) = replaceWhiteSpaceRuns (toUpperCase (trim y))"
  then show "normalizeCourse x = normalizeCourse y" by (auto simp: normalizeCourse_def)
qed

theorem normalizeCourse_idempotent_witness:
  "normalizeCourse (normalizeCourse '' b  c a '') = normalizeCourse '' b  c a '' \<and>
   normalizeCourse '' b  c a '' = ''B C A'' \<and>
   normalizeCourse ''bca'' = normalizeCourse '' BCA ''"
proof -
  have 1: "\<exists>c\<in>set '' b  c a ''. \<not> isWhiteSpace c" by (simp add: isWhiteSpace_def)
  have 2: "replaceWhiteSpaceRuns (toUpperCase (trim ''bca'')) =
           replaceWhiteSpaceRuns (toUpperCase (trim '' BCA ''))"
    by (simp add: trim_def toUpperCase_def toUpperChar_def lowerLetters_def upperLetters_def isWhiteSpace_def)
  have 3: "normalizeCourse '' b  c a '' = ''B C A''"
    by (simp add: normalizeCourse_def trim_def toUpperCase_def toUpperChar_def lowerLetters_def upperLetters_def isWhiteSpace_def)
  from normalizeCourse_idempotent [of "'' b  c a ''" "''bca''" "'' BCA ''"] 1 2 3
  show ?thesis by simp
qed

section \<open>Batch-year normalization\<close>

lemma matchDigits_no_digit: "\<forall>c\<in>set s. \<not> isDigit c \<Longrightarrow> matchDigits s = []"
proof -
  assume "\<forall>c\<in>set s. \<not> isDigit c"
  then have "dropWhile (\<lambda>c. \<not> isDigit c) s = []" by simp
  then show ?thesis by (subst matchDigits.simps) (simp only: list.case)
qed

lemma matchDigits_first_run:
  assumes "\<forall>c\<in>set pre. \<not> isDigit c" "r \<noteq> []" "\<forall>c\<in>set r. isDigit c"
    "post = [] \<or> \<not> isDigit (hd post)"
  shows "\<exists>rest. matchDigits (pre @ r @ post) = r # rest"
proof -
  obtain d r' where r: "r = d # r'" using assms(2) by (cases r) auto
  have d: "isDigit d" using assms(3) r by simp
  have 1: "dropWhile (\<lambda>c. \<not> isDigit c) (pre @ r @ post) = d # (r' @ post)"
    using assms(1) d r by (simp add: dropWhile_append)
  have 2: "takeWhile isDigit (d # (r' @ post)) = r"
  proof -
    have "takeWhile isDigit (r @ post) = r @ takeWhile isDigit post"
      using assms(3) by (simp add: takeWhile_append2)
    moreover have "takeWhile isDigit post = []"
      using assms(4) by (cases post) auto
    ultimately show ?thesis using r by simp
  qed
  show ?thesis by (subst matchDigits.simps) (simp only: 1 list.case 2, blast)
qed

lemma digitVal_range: "isDigit c \<Longrightarrow> 0 \<le> digitVal c \<and> digitVal c \<le> 9"
  unfolding isDigit_def digitVal_def by auto

lemma foldl_digits_nonneg:
  "\<forall>c\<in>set r. isDigit c \<Longrightarrow> 0 \<le> n \<Longrightarrow> 0 \<le> foldl (\<lambda>n c. 10 * n + digitVal c) n r"
proof (induction r arbitrary: n)
  case Nil
  then show ?case by simp
next
  case (Cons c r)
  have "0 \<le> digitVal c" using Cons.prems(1) digitVal_range [of c] by simp
  then have "0 \<le> 10 * n + digitVal c" using Cons.prems(2) by simp
  moreover have "\<forall>c\<in>set r. isDigit c" using Cons.prems(1) by simp
  ultimately have "0 \<le> foldl (\<lambda>n c. 10 * n + digitVal c) (10 * n + digitVal c) r"
    using Cons.IH by blast
  then show ?case by simp
qed

lemma parseInt_nonneg: "\<forall>c\<in>set r. isDigit c \<Longrightarrow> 0 \<le> parseInt r"
  by (simp add: parseInt_def foldl_digits_nonneg)

lemma parseInt_short:
  assumes "\<forall>c\<in>set r. isDigit c" "length r \<le> 2"
  shows "0 \<le> parseInt r \<and> parseInt r \<le> 99"
proof -
  note dv = digitVal_range
  consider "r = []" | a where "r = [a]" | a b where "r = [a, b]"
    using assms(2) by (cases r; cases "tl r"; cases "tl (tl r)") auto
  then show ?thesis
  proof cases
    case 1 then show ?thesis by (simp add: parseInt_def)
  next
    case 2 then show ?thesis using dv[of a] assms(1) by (simp add: parseInt_def)
  next
    case 3 then show ?thesis using dv[of a] dv[of b] assms(1) by (simp add: parseInt_def)
  qed
qed

text \<open>
  Claim C1, as the specification states it, ties the two-digit rule to a run of one or two
  digits and takes a longer run as the year itself. The code tests the value, not the
  length: a run with leading zeros is disambiguated too.
\<close>

theorem normalizeBatchYear_leading_zeros_counterexample:
  "normalizeBatchYear ''0016'' = Some 2016 \<and> spec_normalizeBatchYear ''0016'' = None"
  by code_simp

text \<open>
  Claim C1, amended. Normalization works on the first maximal run of digits of the batch
  string. Without a digit the result is no year. The value \<open>v\<close> of the run, whatever the
  length of the run, becomes \<open>2000 + v\<close> when \<open>v \<le> 30\<close> and \<open>1900 + v\<close> when
  \<open>31 \<le> v \<le> 99\<close> (every run of one or two digits is such a value), and is the year itself
  from 100 on. A year outside 1980 to 2030 gives no year, never a clamped one.
\<close>

theorem normalizeBatchYear_first_run:
  "((\<forall>c\<in>set s. \<not> isDigit c) \<longrightarrow> normalizeBatchYear s = None) \<and>
   (\<forall>pre r post.
      s = pre @ r @ post \<and> (\<forall>c\<in>set pre. \<not> isDigit c) \<and> r \<noteq> [] \<and> (\<forall>c\<in>set r. isDigit c) \<and>
      (post = [] \<or> \<not> isDigit (hd post)) \<longrightarrow>
        normalizeBatchYear s =
          (let v = parseInt r;
               year = (if v \<le> 30 then 2000 + v else if v \<le> 99 then 1900 + v else v)
           in if 1980 \<le> year \<and> year \<le> 2030 then Some year else None) \<and>
        0 \<le> parseInt r \<and> (length r \<le> 2 \<longrightarrow> parseInt r \<le> 99)) \<and>
   (\<forall>y. normalizeBatchYear s = Some y \<longrightarrow> 1980 \<le> y \<and> y \<le> 2030)"
proof (intro conjI allI impI)
  assume "\<forall>c\<in>set s. \<not> isDigit c"
  then show "normalizeBatchYear s = None"
    by (simp add: normalizeBatchYear_def matchDigits_no_digit)
next
  fix pre r post
  assume a: "s = pre @ r @ post \<and> (\<forall>c\<in>set pre. \<not> isDigit c) \<and> r \<noteq> [] \<and>
    (\<forall>c\<in>set r. isDigit c) \<and> (post = [] \<or> \<not> isDigit (hd post))"
  then obtain rest where m: "matchDigits s = r # rest"
    using matchDigits_first_run [of pre r post] by blast
  have nn: "0 \<le> parseInt r" using a parseInt_nonneg by blast
  have ne: "s \<noteq> []" using a by simp
  show "normalizeBatchYear s =
          (let v = parseInt r;
               year = (if v \<le> 30 then 2000 + v else if v \<le> 99 then 1900 + v else v)
           in if 1980 \<le> year \<and> year \<le> 2030 then Some year else None)"
    using nn ne by (auto simp: normalizeBatchYear_def m Let_def)
  show "0 \<le> parseInt r" by (rule nn)
  assume "length r \<le> 2"
  then show "parseInt r \<le> 99" using a parseInt_short by blast
next
  fix y
  assume "normalizeBatchYear s = Some y"
  then show "1980 \<le> y" by (auto simp: normalizeBatchYear_def Let_def split: if_splits list.splits)
next
  fix y
  assume "normalizeBatchYear s = Some y"
  then show "y \<le> 2030" by (auto simp: normalizeBatchYear_def Let_def split: if_splits list.splits)
qed

theorem normalizeBatchYear_first_run_witness:
  "normalizeBatchYear ''Batch 16'' = Some 2016 \<and> normalizeBatchYear ''none'' = None \<and>
   1980 \<le> (2016::int) \<and> (2016::int) \<le> 2030"
proof -
  have d: "\<forall>c\<in>set ''none''. \<not> isDigit c" by (simp add: isDigit_def)
  have h: "''Batch 16'' = ''Batch '' @ ''16'' @ [] \<and> (\<forall>c\<in>set ''Batch ''. \<not> isDigit c) \<and> ''16'' \<noteq> [] \<and>
    (\<forall>c\<in>set ''16''. isDigit c) \<and> ([] = [] \<or> \<not> isDigit (hd []))"
    by (simp add: isDigit_def)
  have v: "parseInt ''16'' = 16" by (simp add: parseInt_def digitVal_def)
  from normalizeBatchYear_first_run [of "''none''"] d
  have 1: "normalizeBatchYear ''none'' = None" by blast
  from normalizeBatchYear_first_run [of "''Batch 16''"] h
  have 2: "normalizeBatchYear ''Batch 16'' =
          (let v = parseInt ''16'';
               year = (if v \<le> 30 then 2000 + v else if v \<le> 99 then 1900 + v else v)
           in if 1980 \<le> year \<and> year \<le> 2030 then Some year else None)" by blast
  have 3: "normalizeBatchYear ''Batch 16'' = Some 2016" using 2 by (simp add: v)
  from normalizeBatchYear_first_run [of "''Batch 16''"] 3
  have "1980 \<le> (2016::int) \<and> (2016::int) \<le> 2030" by blast
  with 1 3 show ?thesis by simp
qed

section \<open>The presence fields stay paired\<close>






















section \<open>Attendance statistics\<close>

text \<open>
  The rounding to a double: \<open>floorLog2\<close> is the exponent it is said to be, and a positive
  number is moved by the rounding by at most its \<open>2\<^sup>-\<^sup>5\<^sup>3\<close>-th part, and not beyond an
  integer above it.
\<close>

lemma bitLength_pos: "0 < n \<Longrightarrow> bitLength n = 1 + bitLength (n div 2)"
  by (subst bitLength.simps) simp

lemma bitLength_nonpos: "n \<le> 0 \<Longrightarrow> bitLength n = 0"
  by (subst bitLength.simps) simp

lemma bitLength_bounds:
  "0 < n \<Longrightarrow> 1 \<le> bitLength n \<and> 2 ^ nat (bitLength n - 1) \<le> n \<and> n < 2 ^ nat (bitLength n)"
proof (induction n rule: bitLength.induct)
  case (1 n)
  show ?case
  proof (cases "n div 2 = 0")
    case True
    with 1(2) have n: "n = 1" by presburger
    have "bitLength 1 = 1" by (simp add: bitLength_pos bitLength_nonpos)
    then show ?thesis using n by simp
  next
    case False
    with 1(2) have h: "0 < n div 2" by presburger
    from 1(2) have "\<not> n \<le> 0" by simp
    from 1(1) [OF this h] have ih: "1 \<le> bitLength (n div 2)"
      "2 ^ nat (bitLength (n div 2) - 1) \<le> n div 2" "n div 2 < 2 ^ nat (bitLength (n div 2))"
      by simp_all
    define b where "b = bitLength (n div 2)"
    have bn: "bitLength n = 1 + b" using 1(2) by (simp add: bitLength_pos b_def)
    have nb: "nat (1 + b - 1) = Suc (nat (b - 1))" "nat (1 + b) = Suc (nat b)"
      using ih(1) by (simp_all add: b_def) 
    have "2 * 2 ^ nat (b - 1) \<le> 2 * (n div 2)" using ih(2) by (simp add: b_def)
    also have "\<dots> \<le> n" by presburger
    finally have lo: "2 ^ nat (bitLength n - 1) \<le> n" by (simp only: bn nb power_Suc)
    have "n div 2 + 1 \<le> 2 ^ nat b" using ih(3) by (simp add: b_def)
    then have "2 * (n div 2) + 2 \<le> 2 * 2 ^ nat b" by simp
    moreover have "n < 2 * (n div 2) + 2" by presburger
    ultimately have hi: "n < 2 ^ nat (bitLength n)" by (simp only: bn nb power_Suc)
    show ?thesis using lo hi ih(1) by (simp add: bn b_def)
  qed
qed

lemma bitLength_powi:
  assumes "0 < n"
  shows "(2::rat) powi (bitLength n - 1) \<le> of_int n \<and> of_int n < (2::rat) powi bitLength n"
proof -
  from bitLength_bounds [OF assms] have b: "1 \<le> bitLength n"
    "2 ^ nat (bitLength n - 1) \<le> n" "n < 2 ^ nat (bitLength n)" by simp_all
  have "(2::rat) powi (bitLength n - 1) = 2 ^ nat (bitLength n - 1)"
    using b(1) by (simp add: power_int_nonneg_exp)
  also have "\<dots> = of_int (2 ^ nat (bitLength n - 1))" by simp
  also have "\<dots> \<le> of_int n" using b(2) by (simp only: of_int_le_iff)
  finally have lo: "(2::rat) powi (bitLength n - 1) \<le> of_int n" .
  have "(of_int n :: rat) < of_int (2 ^ nat (bitLength n))" using b(3) by (simp only: of_int_less_iff)
  also have "\<dots> = 2 ^ nat (bitLength n)" by simp
  also have "\<dots> = (2::rat) powi bitLength n" using b(1) by (simp add: power_int_nonneg_exp)
  finally show ?thesis using lo by simp
qed

lemma floorLog2_bounds:
  assumes "0 < q"
  shows "2 powi floorLog2 q \<le> q \<and> q < 2 powi (floorLog2 q + 1)"
proof -
  obtain n d where nd: "quotient_of q = (n, d)" by (cases "quotient_of q")
  have d: "0 < d" using nd by (rule quotient_of_denom_pos)
  have q: "q = of_int n / of_int d" using nd by (rule quotient_of_div)
  have n: "0 < n" using assms d q by (simp add: zero_less_divide_iff)
  define e where "e = bitLength n - bitLength d"
  note bn = bitLength_powi [OF n] and bd = bitLength_powi [OF d]
  have dpos: "(0::rat) < of_int d" using d by simp
  have lo: "2 powi (e - 1) \<le> q"
  proof -
    have "(2::rat) powi (e - 1) = 2 powi (bitLength n - 1) / 2 powi bitLength d"
      by (simp add: e_def power_int_diff [symmetric] algebra_simps)
    also have "\<dots> \<le> of_int n / 2 powi bitLength d"
      using bn by (simp add: divide_right_mono)
    also have "\<dots> \<le> of_int n / of_int d"
      using bd dpos n by (simp add: divide_left_mono)
    finally show ?thesis by (simp add: q)
  qed
  have hi: "q < 2 powi (e + 1)"
  proof -
    have "q = of_int n / of_int d" by (rule q)
    also have "\<dots> < 2 powi bitLength n / of_int d"
      using bn dpos by (simp add: divide_strict_right_mono)
    also have "\<dots> \<le> 2 powi bitLength n / 2 powi (bitLength d - 1)"
      using bd dpos by (simp add: divide_left_mono)
    also have "\<dots> = 2 powi (e + 1)"
      by (simp add: e_def power_int_diff [symmetric] algebra_simps)
    finally show ?thesis .
  qed
  have f: "floorLog2 q = (if 2 powi e \<le> q then e else e - 1)"
    by (simp add: floorLog2_def nd e_def Let_def)
  show ?thesis
  proof (cases "2 powi e \<le> q")
    case True
    then show ?thesis using hi f by simp
  next
    case False
    then show ?thesis using lo f by simp
  qed
qed

lemma roundHalfEven_le: "r \<le> of_int M \<Longrightarrow> roundHalfEven r \<le> M"
proof -
  assume a: "r \<le> of_int M"
  have f: "\<lfloor>r\<rfloor> \<le> M" using a by (simp add: floor_le_iff)
  show ?thesis
  proof (cases "r = of_int M")
    case True
    then show ?thesis by (simp add: roundHalfEven_def)
  next
    case False
    with a have "r < of_int M" by simp
    then have "\<lfloor>r\<rfloor> < M" by (simp add: floor_less_iff)
    then show ?thesis by (simp add: roundHalfEven_def Let_def)
  qed
qed

lemma roundHalfEven_ge: "of_int M \<le> r \<Longrightarrow> M \<le> roundHalfEven r"
proof -
  assume "of_int M \<le> r"
  then have "M \<le> \<lfloor>r\<rfloor>" by (simp add: le_floor_iff)
  then show ?thesis by (simp add: roundHalfEven_def Let_def)
qed

lemma roundHalfEven_error: "\<bar>of_int (roundHalfEven r) - r\<bar> \<le> 1 / 2"
proof -
  have "of_int \<lfloor>r\<rfloor> \<le> r" "r < of_int \<lfloor>r\<rfloor> + 1" by linarith+
  then show ?thesis by (auto simp: roundHalfEven_def Let_def abs_le_iff)
qed

lemma floorLog2_le: "0 < q \<Longrightarrow> q \<le> 2 powi j \<Longrightarrow> 0 \<le> j \<Longrightarrow> floorLog2 q \<le> j"
proof -
  assume q: "0 < q" "q \<le> 2 powi j" and j: "0 \<le> j"
  from floorLog2_bounds [OF q(1)] q(2) have h: "(2::rat) powi floorLog2 q \<le> 2 powi j" by simp
  have "(1::rat) < 2" by simp
  from this h j show ?thesis by (rule power_int_le_imp_le_exp)
qed

lemma toDouble_eq:
  "q \<noteq> 0 \<Longrightarrow> e = floorLog2 \<bar>q\<bar> - 52 \<Longrightarrow>
   toDouble q = of_int (roundHalfEven (q / 2 powi e)) * 2 powi e"
  unfolding toDouble_def Let_def by (simp only: if_False)

lemma toDouble_zero: "toDouble 0 = 0"
  unfolding toDouble_def by simp

lemma toDouble_nonneg: "0 \<le> q \<Longrightarrow> 0 \<le> toDouble q"
proof (cases "q = 0")
  case True
  then show ?thesis by (simp only: toDouble_zero order_refl)
next
  case False
  assume "0 \<le> q"
  with False have q: "0 < q" by simp
  define e where "e = floorLog2 \<bar>q\<bar> - 52"
  have p: "(0::rat) < 2 powi e" by simp
  have "(0::rat) \<le> q / 2 powi e" using q p by (intro divide_nonneg_pos) simp_all
  then have "of_int 0 \<le> q / 2 powi e" by simp
  then have "0 \<le> roundHalfEven (q / 2 powi e)" by (rule roundHalfEven_ge)
  then have "(0::rat) \<le> of_int (roundHalfEven (q / 2 powi e))" by simp
  then have "(0::rat) \<le> of_int (roundHalfEven (q / 2 powi e)) * 2 powi e"
    using p by (intro mult_nonneg_nonneg) simp_all
  then show ?thesis by (simp only: toDouble_eq [OF False e_def])
qed

lemma toDouble_le_int:
  assumes "0 < q" "q \<le> of_int M" "q \<le> 2 powi 52"
  shows "toDouble q \<le> of_int M"
proof -
  define e where "e = floorLog2 \<bar>q\<bar> - 52"
  have aq: "\<bar>q\<bar> = q" using assms(1) by simp
  have q0: "q \<noteq> 0" using assms(1) by simp
  have "floorLog2 q \<le> 52" using assms(1,3) by (rule floorLog2_le) simp
  then have e0: "e \<le> 0" by (simp add: e_def aq)
  define s where "s = nat (- e)"
  have es: "e = - int s" using e0 by (simp add: s_def)
  have pe: "(2::rat) powi e = inverse (2 ^ s)"
    unfolding es by (simp add: power_int_minus)
  define P :: rat where "P = 2 ^ s"
  have P: "0 < P" by (simp add: P_def)
  have pe': "(2::rat) powi e = inverse P" by (simp only: pe P_def)
  have "q / 2 powi e = q * P" by (simp add: pe' divide_inverse)
  also have "\<dots> \<le> of_int M * P" using assms(2) P by (intro mult_right_mono) simp_all
  also have "\<dots> = of_int (M * 2 ^ s)" by (simp add: P_def)
  finally have "roundHalfEven (q / 2 powi e) \<le> M * 2 ^ s" by (rule roundHalfEven_le)
  then have "(of_int (roundHalfEven (q / 2 powi e)) :: rat) \<le> of_int (M * 2 ^ s)"
    by (simp only: of_int_le_iff)
  then have "of_int (roundHalfEven (q / 2 powi e)) * inverse P \<le> of_int (M * 2 ^ s) * inverse P"
    using P by (intro mult_right_mono) simp_all
  also have "of_int (M * 2 ^ s) * inverse P = of_int M"
    using P by (simp add: P_def)
  finally show ?thesis by (simp only: toDouble_eq [OF q0 e_def] pe')
qed

lemma toDouble_error:
  assumes "0 < q"
  shows "\<bar>toDouble q - q\<bar> \<le> q / 2 ^ 53"
proof -
  define e where "e = floorLog2 \<bar>q\<bar> - 52"
  have aq: "\<bar>q\<bar> = q" using assms by simp
  have q0: "q \<noteq> 0" using assms by simp
  define P :: rat where "P = 2 powi e"
  have p: "0 < P" by (simp add: P_def)
  define r where "r = q / P"
  have qr: "q = r * P" using p by (simp add: r_def)
  have td: "toDouble q = of_int (roundHalfEven r) * P"
    by (simp only: toDouble_eq [OF q0 e_def] P_def r_def)
  have "toDouble q - q = (of_int (roundHalfEven r) - r) * P"
    by (simp only: td qr [symmetric] left_diff_distrib)
  then have "\<bar>toDouble q - q\<bar> = \<bar>of_int (roundHalfEven r) - r\<bar> * P"
    using p by (simp only: abs_mult abs_of_pos)
  also have "\<dots> \<le> 1 / 2 * P"
    using roundHalfEven_error [of r] p by (intro mult_right_mono) simp_all
  also have "\<dots> = 2 powi floorLog2 q / 2 ^ 53"
  proof -
    have "floorLog2 q = e + 52" by (simp add: e_def aq)
    then have "(2::rat) powi floorLog2 q = P * 2 powi 52"
      by (simp only: P_def power_int_add) (simp add: power_int_add)
    then show ?thesis by simp
  qed
  also have "\<dots> \<le> q / 2 ^ 53"
    using floorLog2_bounds [OF assms] by (intro divide_right_mono) simp_all
  finally show ?thesis .
qed

lemma product_error:
  assumes "p \<le> t" "0 < t"
  shows "\<bar>toDouble (toDouble (of_nat p / of_nat t) * 100) - of_nat p / of_nat t * 100\<bar> \<le> 25 / 2 ^ 50"
proof (cases "p = 0")
  case True
  then show ?thesis by (simp add: toDouble_zero)
next
  case False
  define q :: rat where "q = of_nat p / of_nat t"
  have q0: "0 < q" using False assms(2) by (simp add: q_def)
  have q1: "q \<le> 1" using assms by (simp add: q_def)
  define x where "x = toDouble q"
  have ex: "\<bar>x - q\<bar> \<le> q / 2 ^ 53" unfolding x_def using q0 by (rule toDouble_error)
  have "q / 2 ^ 53 \<le> 1 / 2 ^ 53" using q1 by (intro divide_right_mono) simp_all
  with ex have ex1: "\<bar>x - q\<bar> \<le> 1 / 2 ^ 53" by linarith
  have "q / 2 ^ 53 < q" using q0 by (simp add: field_simps)
  with ex have x0: "0 < x" by linarith
  have "q \<le> of_int 1" using q1 by simp
  moreover have "q \<le> 2 powi 52" using q1 by simp
  ultimately have "toDouble q \<le> of_int 1" using q0 by (intro toDouble_le_int)
  then have x1: "x \<le> 1" by (simp add: x_def)
  define y where "y = toDouble (x * 100)"
  have x100: "0 < x * 100" using x0 by simp
  have "\<bar>y - x * 100\<bar> \<le> x * 100 / 2 ^ 53" unfolding y_def using x100 by (rule toDouble_error)
  moreover have "x * 100 / 2 ^ 53 \<le> 100 / 2 ^ 53" using x1 by (intro divide_right_mono) simp_all
  ultimately have ey: "\<bar>y - x * 100\<bar> \<le> 100 / 2 ^ 53" by linarith
  have "\<bar>y - q * 100\<bar> = \<bar>(y - x * 100) + 100 * (x - q)\<bar>" by (simp add: algebra_simps)
  also have "\<dots> \<le> \<bar>y - x * 100\<bar> + \<bar>100 * (x - q)\<bar>" by (rule abs_triangle_ineq)
  also have "\<dots> = \<bar>y - x * 100\<bar> + 100 * \<bar>x - q\<bar>" by (simp only: abs_mult abs_numeral)
  also have "\<dots> \<le> 100 / 2 ^ 53 + 100 * (1 / 2 ^ 53)"
    using ey ex1 by (intro add_mono mult_left_mono) simp_all
  also have "\<dots> = 25 / 2 ^ 50" by simp
  finally show ?thesis by (simp only: y_def x_def q_def)
qed

lemma Math_round_nearest:
  assumes e: "\<bar>y - of_int N / of_int T\<bar> \<le> 25 / 2 ^ 50" and T: "0 < T" "T \<le> 2 ^ 44"
  shows "\<bar>of_int (Math_round y) - of_int N / of_int T\<bar> \<le> (1 / 2 :: rat)"
proof -
  define k where "k = Math_round y"
  define T' :: rat where "T' = of_int T"
  define N' :: rat where "N' = of_int N"
  have T0: "0 < T'" using T(1) by (simp add: T'_def)
  have "T' \<le> of_int (2 ^ 44)" unfolding T'_def using T(2) by (simp only: of_int_le_iff)
  then have T1: "T' \<le> 2 ^ 44" by simp
  have k1: "of_int k \<le> y + 1 / 2" and k2: "y + 1 / 2 < of_int k + 1"
    unfolding k_def Math_round_def by linarith+
  have y1: "y \<le> N' / T' + 25 / 2 ^ 50" and y2: "N' / T' - 25 / 2 ^ 50 \<le> y"
    using e unfolding N'_def T'_def by linarith+
  have small: "T' * (50 / 2 ^ 50) < 1" using T0 T1 by simp
  have NT: "N' / T' * (2 * T') = 2 * N'" using T0 by simp
  have up: "of_int k \<le> N' / T' + 1 / 2"
  proof -
    have "of_int k \<le> N' / T' + 25 / 2 ^ 50 + 1 / 2" using k1 y1 by linarith
    then have "of_int k * (2 * T') \<le> (N' / T' + 25 / 2 ^ 50 + 1 / 2) * (2 * T')"
      using T0 by (intro mult_right_mono) simp_all
    also have "\<dots> = 2 * N' + T' + T' * (50 / 2 ^ 50)"
      by (simp only: distrib_right NT) simp
    also have "\<dots> < 2 * N' + T' + 1" using small by linarith
    finally have "(of_int (k * (2 * T)) :: rat) < of_int (2 * N + T + 1)"
      by (simp add: N'_def T'_def)
    then have "k * (2 * T) < 2 * N + T + 1" by (simp only: of_int_less_iff)
    then have "k * (2 * T) \<le> 2 * N + T" by simp
    then have "(of_int (k * (2 * T)) :: rat) \<le> of_int (2 * N + T)" by (simp only: of_int_le_iff)
    then have "of_int k * (2 * T') \<le> 2 * N' + T'" by (simp add: N'_def T'_def)
    then show ?thesis using T0 by (simp add: field_simps)
  qed
  have lo: "N' / T' - 1 / 2 \<le> of_int k"
  proof -
    have "N' / T' - 25 / 2 ^ 50 - 1 / 2 < of_int k" using k2 y2 by linarith
    then have "(N' / T' - 25 / 2 ^ 50 - 1 / 2) * (2 * T') < of_int k * (2 * T')"
      using T0 by (intro mult_strict_right_mono) simp_all
    moreover have "(N' / T' - 25 / 2 ^ 50 - 1 / 2) * (2 * T') = 2 * N' - T' - T' * (50 / 2 ^ 50)"
      by (simp only: left_diff_distrib NT) simp
    ultimately have "2 * N' - T' - 1 < of_int k * (2 * T')" using small by linarith
    then have "(of_int (2 * N - T - 1) :: rat) < of_int (k * (2 * T))"
      by (simp add: N'_def T'_def)
    then have "2 * N - T - 1 < k * (2 * T)" by (simp only: of_int_less_iff)
    then have "2 * N - T \<le> k * (2 * T)" by simp
    then have "(of_int (2 * N - T) :: rat) \<le> of_int (k * (2 * T))" by (simp only: of_int_le_iff)
    then have "2 * N' - T' \<le> of_int k * (2 * T')" by (simp add: N'_def T'_def)
    then show ?thesis using T0 by (simp add: field_simps)
  qed
  from up lo show ?thesis unfolding k_def N'_def T'_def by linarith
qed

lemma percentage_nearest:
  assumes "p \<le> t" "0 < t" "t \<le> 2 ^ 44"
  shows "\<bar>of_int (Math_round (toDouble (toDouble (of_nat p / of_nat t) * 100))) -
           of_nat p / of_nat t * 100\<bar> \<le> (1 / 2 :: rat)"
proof -
  have eq: "(of_int (100 * int p) / of_int (int t) :: rat) = of_nat p / of_nat t * 100"
    by simp
  have e: "\<bar>toDouble (toDouble (of_nat p / of_nat t) * 100) -
             of_int (100 * int p) / of_int (int t)\<bar> \<le> 25 / 2 ^ 50"
    unfolding eq using assms(1,2) by (rule product_error)
  have "int t \<le> int (2 ^ 44)" using assms(3) by (simp only: of_nat_le_iff)
  then have t: "int t \<le> 2 ^ 44" by simp
  have "0 < int t" using assms(2) by simp
  from Math_round_nearest [OF e this t] show ?thesis unfolding eq .
qed

lemma percentage_bounds:
  assumes "p \<le> t" "0 < t"
  shows "0 \<le> Math_round (toDouble (toDouble (of_nat p / of_nat t) * 100)) \<and>
         Math_round (toDouble (toDouble (of_nat p / of_nat t) * 100)) \<le> 100"
proof -
  define q :: rat where "q = of_nat p / of_nat t"
  have q: "0 \<le> q" "q \<le> 1" using assms by (simp_all add: q_def)
  define x where "x = toDouble q"
  have x0: "0 \<le> x" unfolding x_def using q(1) by (rule toDouble_nonneg)
  have x1: "x \<le> 1"
  proof (cases "q = 0")
    case True
    then show ?thesis by (simp add: x_def toDouble_zero)
  next
    case False
    with q(1) have "0 < q" by simp
    moreover have "q \<le> of_int 1" using q(2) by simp
    moreover have "q \<le> 2 powi 52" using q(2) by simp
    ultimately have "toDouble q \<le> of_int 1" by (rule toDouble_le_int)
    then show ?thesis by (simp add: x_def)
  qed
  define y where "y = toDouble (x * 100)"
  have "0 \<le> x * 100" using x0 by simp
  then have y0: "0 \<le> y" unfolding y_def by (rule toDouble_nonneg)
  have y1: "y \<le> 100"
  proof (cases "x = 0")
    case True
    then show ?thesis by (simp add: y_def toDouble_zero)
  next
    case False
    with x0 have "0 < x * 100" by simp
    moreover have "x * 100 \<le> of_int 100" using x1 by simp
    moreover have "x * 100 \<le> 2 powi 52" using x1 by simp
    ultimately have "toDouble (x * 100) \<le> of_int 100" by (rule toDouble_le_int)
    then show ?thesis by (simp add: y_def)
  qed
  have "0 \<le> Math_round y" using y0 by (simp add: Math_round_def)
  moreover have "Math_round y \<le> 100"
  proof -
    have "y + 1 / 2 < 101" using y1 by simp
    then have "\<lfloor>y + 1 / 2\<rfloor> < 101" by (simp only: floor_less_iff of_int_numeral)
    then show ?thesis by (simp add: Math_round_def)
  qed
  ultimately show ?thesis by (simp only: y_def x_def q_def)
qed

text \<open>
  Claim C9, as the specification states it, fails where the exact percentage lies halfway
  between two integers: the quotient and the product are each rounded to a double before
  \<^verbatim>\<open>Math.round\<close>. With 23 of 40 records present the exact percentage is 57.5, the
  product is the double just below it, and the percentage returned is 57, not 58.
\<close>

theorem getStats_rounding_counterexample:
  "percentage (getStats (replicate 23 \<lparr>fullName = ''A'', course = ''C'', shift = None,
       batch = ''16'', contactNo = None, doc_id = 0, isPresent = True, checkedInAt = Some 1\<rparr> @
     replicate 17 \<lparr>fullName = ''B'', course = ''C'', shift = None,
       batch = ''16'', contactNo = None, doc_id = 0, isPresent = False, checkedInAt = None\<rparr>)) = 57 \<and>
   spec_percentage 23 40 = 58"
  by code_simp

text \<open>
  Claim C9, amended. \<^verbatim>\<open>getStats\<close> returns as total the number of records, as present the
  number of records with \<^verbatim>\<open>isPresent\<close> true, as absent their difference, which is never
  negative, and as percentage 0 on the empty collection and otherwise \<^verbatim>\<open>Math.round\<close> of
  the quotient of present and total times 100, in the arithmetic of JavaScript numbers. The
  percentage lies between 0 and 100, and for a collection of at most \<open>2\<^sup>4\<^sup>4\<close> records it is an
  integer nearest to the exact percentage: it differs from it by at most one half. (Where
  the exact percentage lies halfway between two integers, either of them can be the
  result.) On the empty collection all four are 0: no division takes place.
\<close>

theorem getStats_counts:
  "total (getStats all) = int (length all) \<and>
   present (getStats all) = int (card {i. i < length all \<and> isPresent (all ! i)}) \<and>
   absent (getStats all) = total (getStats all) - present (getStats all) \<and>
   0 \<le> absent (getStats all) \<and>
   percentage (getStats all) =
     (if total (getStats all) = 0 then 0
      else Math_round
             (toDouble
               (toDouble (of_int (present (getStats all)) / of_int (total (getStats all))) * 100))) \<and>
   0 \<le> percentage (getStats all) \<and> percentage (getStats all) \<le> 100 \<and>
   (0 < length all \<and> length all \<le> 2 ^ 44 \<longrightarrow>
      \<bar>of_int (percentage (getStats all)) -
         of_int (present (getStats all)) / of_int (total (getStats all)) * 100\<bar> \<le> (1 / 2 :: rat)) \<and>
   getStats [] = \<lparr>total = 0, present = 0, absent = 0, percentage = 0\<rparr>"
proof -
  define p where "p = length (filter isPresent all)"
  define t where "t = length all"
  have c: "p = card {i. i < length all \<and> isPresent (all ! i)}"
    unfolding p_def by (rule length_filter_conv_card)
  have le: "p \<le> t"
    unfolding p_def t_def by (rule length_filter_le)
  have tot: "total (getStats all) = int t"
    by (simp add: getStats_def Let_def t_def)
  have pre: "present (getStats all) = int p"
    by (simp add: getStats_def Let_def p_def)
  have pct: "percentage (getStats all) =
      (if 0 < t then Math_round (toDouble (toDouble (of_nat p / of_nat t) * 100)) else 0)"
    by (simp add: getStats_def Let_def p_def t_def)
  have 1: "total (getStats all) = int (length all)"
    by (simp add: tot t_def)
  have 2: "present (getStats all) = int (card {i. i < length all \<and> isPresent (all ! i)})"
    using c by (simp add: pre)
  have 3: "absent (getStats all) = total (getStats all) - present (getStats all)"
    by (simp add: getStats_def Let_def)
  have 4: "0 \<le> absent (getStats all)"
    using le by (simp add: getStats_def Let_def p_def t_def)
  have 5: "percentage (getStats all) =
     (if total (getStats all) = 0 then 0
      else Math_round
             (toDouble
               (toDouble (of_int (present (getStats all)) / of_int (total (getStats all))) * 100)))"
    by (simp add: getStats_def Let_def)
  have 6: "0 \<le> percentage (getStats all) \<and> percentage (getStats all) \<le> 100"
  proof (cases "0 < t")
    case True
    from percentage_bounds [OF le True] show ?thesis by (simp only: pct True if_True)
  next
    case False
    then show ?thesis by (simp only: pct if_False) simp
  qed
  have 7: "0 < length all \<and> length all \<le> 2 ^ 44 \<longrightarrow>
      \<bar>of_int (percentage (getStats all)) -
         of_int (present (getStats all)) / of_int (total (getStats all)) * 100\<bar> \<le> (1 / 2 :: rat)"
  proof
    assume "0 < length all \<and> length all \<le> 2 ^ 44"
    then have t: "0 < t" "t \<le> 2 ^ 44" by (simp_all add: t_def)
    from percentage_nearest [OF le t]
    show "\<bar>of_int (percentage (getStats all)) -
         of_int (present (getStats all)) / of_int (total (getStats all)) * 100\<bar> \<le> (1 / 2 :: rat)"
      by (simp only: pct tot pre t(1) if_True of_int_of_nat_eq)
  qed
  have 8: "getStats [] = \<lparr>total = 0, present = 0, absent = 0, percentage = 0\<rparr>"
    by (simp add: getStats_def)
  from 1 2 3 4 5 6 7 8 show ?thesis by (intro conjI) (rule conjunct1, assumption | rule conjunct2, assumption | assumption)+
qed

theorem getStats_counts_witness:
  "percentage (getStats (\<lparr>fullName = ''A'', course = ''C'', shift = None,
       batch = ''16'', contactNo = None, doc_id = 0, isPresent = True, checkedInAt = Some 1\<rparr> #
     replicate 7 \<lparr>fullName = ''B'', course = ''C'', shift = None,
       batch = ''16'', contactNo = None, doc_id = 0, isPresent = False, checkedInAt = None\<rparr>)) = 13 \<and>
   \<bar>(13 :: rat) - 1 / 8 * 100\<bar> \<le> 1 / 2"
proof -
  define W where "W = \<lparr>fullName = ''A'', course = ''C'', shift = None,
       batch = ''16'', contactNo = None, doc_id = 0, isPresent = True, checkedInAt = Some (1::int)\<rparr> #
     replicate 7 \<lparr>fullName = ''B'', course = ''C'', shift = None,
       batch = ''16'', contactNo = None, doc_id = 0, isPresent = False, checkedInAt = None\<rparr>"
  have h: "0 < length W \<and> length W \<le> 2 ^ 44" by (simp add: W_def)
  have p: "percentage (getStats W) = 13" unfolding W_def by code_simp
  have q: "present (getStats W) = 1" "total (getStats W) = 8" unfolding W_def by code_simp+
  note g = getStats_counts [of W]
  from g have "0 < length W \<and> length W \<le> 2 ^ 44 \<longrightarrow>
      \<bar>of_int (percentage (getStats W)) -
         of_int (present (getStats W)) / of_int (total (getStats W)) * 100\<bar> \<le> (1 / 2 :: rat)"
    by (elim conjE)
  with h have "\<bar>of_int (percentage (getStats W)) -
         of_int (present (getStats W)) / of_int (total (getStats W)) * 100\<bar> \<le> (1 / 2 :: rat)"
    by (rule rev_mp)
  then have "\<bar>(13 :: rat) - 1 / 8 * 100\<bar> \<le> 1 / 2" by (simp only: p q of_int_numeral of_int_1)
  with p show ?thesis unfolding W_def by (rule conjI)
qed

section \<open>The free-text search\<close>

lemma startsWith_iff: "startsWith s p \<longleftrightarrow> (\<exists>post. s = p @ post)"
  by (induction s p rule: startsWith.induct) auto

lemma includes_iff: "includes_str s sub \<longleftrightarrow> (\<exists>pre post. s = pre @ sub @ post)"
proof (induction s)
  case Nil
  then show ?case by auto
next
  case (Cons c cs)
  show ?case
  proof
    assume "includes_str (c # cs) sub"
    then consider "startsWith (c # cs) sub" | "includes_str cs sub" by auto
    then show "\<exists>pre post. c # cs = pre @ sub @ post"
    proof cases
      case 1
      then obtain post where "c # cs = sub @ post" using startsWith_iff by blast
      then have "c # cs = [] @ sub @ post" by simp
      then show ?thesis by blast
    next
      case 2
      then obtain pre post where "cs = pre @ sub @ post" using Cons.IH by blast
      then have "c # cs = (c # pre) @ sub @ post" by simp
      then show ?thesis by blast
    qed
  next
    assume "\<exists>pre post. c # cs = pre @ sub @ post"
    then obtain pre post where e: "c # cs = pre @ sub @ post" by blast
    show "includes_str (c # cs) sub"
    proof (cases pre)
      case Nil
      then have "startsWith (c # cs) sub" using e startsWith_iff by auto
      then show ?thesis by simp
    next
      case (Cons d pre')
      then have "cs = pre' @ sub @ post" using e by simp
      then have "includes_str cs sub" using Cons.IH by blast
      then show ?thesis by simp
    qed
  qed
qed

lemma globalFilterFn_iff:
  "globalFilterFn a v \<longleftrightarrow>
     (\<exists>pre post. toLowerCase (fullName a) = pre @ toLowerCase v @ post) \<or>
     (\<exists>c pre post. contactNo a = Some c \<and> toLowerCase c = pre @ toLowerCase v @ post)"
proof (cases "contactNo a")
  case None
  have "includes_str [] (toLowerCase v) \<Longrightarrow> includes_str (toLowerCase (fullName a)) (toLowerCase v)"
    by (cases "toLowerCase (fullName a)") auto
  then show ?thesis using None by (auto simp: globalFilterFn_def Let_def includes_iff)
next
  case (Some c)
  then show ?thesis by (simp add: globalFilterFn_def Let_def includes_iff)
qed

text \<open>
  Claim C2. The roster and the print view match a record exactly when the search string,
  in lower case, is a substring of the full name or of the contact number in lower case
  (\<open>globalFilterFn_iff\<close>). The admin console does not apply that predicate: its search
  also runs over course, shift and batch. For the record of John Doe, course CS, and the
  search string \<^verbatim>\<open>cs\<close>, which occurs neither in the name nor in the contact number, the
  admin console keeps the record and the predicate of the other two surfaces rejects it.
\<close>

theorem admin_search_matches_course:
  "filteredAttendees
     [\<lparr>fullName = ''John Doe'', course = ''CS'', shift = None, batch = ''2024'',
       contactNo = Some ''9876543210'', doc_id = 0, isPresent = False, checkedInAt = None\<rparr>]
     ''cs'' ''all'' ''all'' ShowAll =
     [\<lparr>fullName = ''John Doe'', course = ''CS'', shift = None, batch = ''2024'',
       contactNo = Some ''9876543210'', doc_id = 0, isPresent = False, checkedInAt = None\<rparr>] \<and>
   \<not> globalFilterFn
     \<lparr>fullName = ''John Doe'', course = ''CS'', shift = None, batch = ''2024'',
       contactNo = Some ''9876543210'', doc_id = 0, isPresent = False, checkedInAt = None\<rparr> ''cs''"
  by code_simp

section \<open>Sorting by batch\<close>

lemma normalizeBatchYear_window:
  "normalizeBatchYear s = Some y \<Longrightarrow> 1980 \<le> y \<and> y \<le> 2030"
  by (auto simp: normalizeBatchYear_def Let_def split: if_splits list.splits)

lemma batchKey_le_iff:
  "batchKey a \<le> batchKey b \<longleftrightarrow> year_le (normalizeBatchYear (batch a)) (normalizeBatchYear (batch b))"
proof (cases "normalizeBatchYear (batch a)"; cases "normalizeBatchYear (batch b)")
  fix x y
  assume "normalizeBatchYear (batch a) = Some x" "normalizeBatchYear (batch b) = Some y"
  then show ?thesis by (simp add: batchKey_def)
next
  fix y
  assume "normalizeBatchYear (batch a) = None" "normalizeBatchYear (batch b) = Some y"
  then show ?thesis using normalizeBatchYear_window [of "batch b" y] by (simp add: batchKey_def)
next
  fix x
  assume "normalizeBatchYear (batch a) = Some x" "normalizeBatchYear (batch b) = None"
  then show ?thesis using normalizeBatchYear_window [of "batch a" x] by (simp add: batchKey_def)
next
  assume "normalizeBatchYear (batch a) = None" "normalizeBatchYear (batch b) = None"
  then show ?thesis by (simp add: batchKey_def)
qed

lemma compareFn_batch_asc: "compareFn ''batch'' Asc a b \<le> 0 \<longleftrightarrow> batchKey a \<le> batchKey b"
  by (auto simp: compareFn_def sortValue_def batchKey_def Let_def)

lemma insertSorted_insort_key:
  "(\<And>a b. cmp a b \<le> 0 \<longleftrightarrow> k a \<le> k b) \<Longrightarrow> insertSorted cmp x ys = insort_key k x ys"
  by (induction ys) auto

lemma stableSort_sort_key:
  assumes "\<And>a b. cmp a b \<le> 0 \<longleftrightarrow> k a \<le> (k b :: int)"
  shows "stableSort cmp xs = sort_key k xs"
proof -
  have "foldr (insertSorted cmp) xs [] = foldr (insort_key k) xs []"
    by (induction xs) (simp_all add: insertSorted_insort_key [OF assms])
  then show ?thesis by (simp add: stableSort_def sort_key_def)
qed

lemma sortedDataForExport_batch_asc:
  "sortedDataForExport xs ''batch'' Asc = sort_key batchKey xs"
  unfolding sortedDataForExport_def by (rule stableSort_sort_key) (rule compareFn_batch_asc)

lemma filter_sort_key_stable:
  assumes "\<And>a. P a \<Longrightarrow> k a = c"
  shows "filter P (sort_key k xs) = filter P xs"
proof -
  have f: "filter P (filter (\<lambda>a. k a = c) ys) = filter P ys" for ys
    by (induction ys) (auto dest: assms)
  have "filter P (sort_key k xs) = filter P (filter (\<lambda>a. k a = c) (sort_key k xs))"
    by (simp only: f)
  also have "\<dots> = filter P (filter (\<lambda>a. k a = c) xs)"
    by (simp only: sort_key_stable)
  also have "\<dots> = filter P xs" by (rule f)
  finally show ?thesis .
qed

text \<open>
  Claim C8. Sorting by batch in ascending order puts the records in the order of their
  normalized years, a record without a year after every record with one; it keeps all
  records, and records with the same normalized year keep their order. The records with
  batches 2016, 16 and Batch 1999 come out as Batch 1999, 2016, 16: the first two have the
  same year 2016.
\<close>

theorem batch_sort_by_year:
  "sorted_wrt (\<lambda>a b. year_le (normalizeBatchYear (batch a)) (normalizeBatchYear (batch b)))
     (sortedDataForExport xs ''batch'' Asc) \<and>
   mset (sortedDataForExport xs ''batch'' Asc) = mset xs \<and>
   filter (\<lambda>a. normalizeBatchYear (batch a) = y) (sortedDataForExport xs ''batch'' Asc) =
     filter (\<lambda>a. normalizeBatchYear (batch a) = y) xs \<and>
   sortedDataForExport
     [\<lparr>fullName = ''A'', course = ''BCA'', shift = None, batch = ''2016'', contactNo = None,
       doc_id = 0, isPresent = False, checkedInAt = None\<rparr>,
      \<lparr>fullName = ''B'', course = ''BCA'', shift = None, batch = ''16'', contactNo = None,
       doc_id = 1, isPresent = False, checkedInAt = None\<rparr>,
      \<lparr>fullName = ''C'', course = ''BCA'', shift = None, batch = ''Batch 1999'', contactNo = None,
       doc_id = 2, isPresent = False, checkedInAt = None\<rparr>] ''batch'' Asc =
     [\<lparr>fullName = ''C'', course = ''BCA'', shift = None, batch = ''Batch 1999'', contactNo = None,
       doc_id = 2, isPresent = False, checkedInAt = None\<rparr>,
      \<lparr>fullName = ''A'', course = ''BCA'', shift = None, batch = ''2016'', contactNo = None,
       doc_id = 0, isPresent = False, checkedInAt = None\<rparr>,
      \<lparr>fullName = ''B'', course = ''BCA'', shift = None, batch = ''16'', contactNo = None,
       doc_id = 1, isPresent = False, checkedInAt = None\<rparr>] \<and>
   normalizeBatchYear ''2016'' = normalizeBatchYear ''16'' \<and>
   normalizeBatchYear ''Batch 1999'' = Some 1999"
proof -
  let ?r = "sortedDataForExport xs ''batch'' Asc"
  have eq: "?r = sort_key batchKey xs" by (rule sortedDataForExport_batch_asc)
  have "sorted (map batchKey ?r)" unfolding eq by (rule sorted_sort_key)
  then have "sorted_wrt (\<lambda>a b. batchKey a \<le> batchKey b) ?r" by (simp add: sorted_map)
  then have 1: "sorted_wrt (\<lambda>a b. year_le (normalizeBatchYear (batch a)) (normalizeBatchYear (batch b))) ?r"
    by (simp add: batchKey_le_iff)
  have 2: "mset ?r = mset xs" unfolding eq by simp
  have 3: "filter (\<lambda>a. normalizeBatchYear (batch a) = y) ?r =
     filter (\<lambda>a. normalizeBatchYear (batch a) = y) xs"
    unfolding eq by (rule filter_sort_key_stable [where c = "case y of None \<Rightarrow> 9999 | Some v \<Rightarrow> v"])
      (auto simp: batchKey_def)
  have 4: "sortedDataForExport
     [\<lparr>fullName = ''A'', course = ''BCA'', shift = None, batch = ''2016'', contactNo = None,
       doc_id = 0, isPresent = False, checkedInAt = None\<rparr>,
      \<lparr>fullName = ''B'', course = ''BCA'', shift = None, batch = ''16'', contactNo = None,
       doc_id = 1, isPresent = False, checkedInAt = None\<rparr>,
      \<lparr>fullName = ''C'', course = ''BCA'', shift = None, batch = ''Batch 1999'', contactNo = None,
       doc_id = 2, isPresent = False, checkedInAt = None\<rparr>] ''batch'' Asc =
     [\<lparr>fullName = ''C'', course = ''BCA'', shift = None, batch = ''Batch 1999'', contactNo = None,
       doc_id = 2, isPresent = False, checkedInAt = None\<rparr>,
      \<lparr>fullName = ''A'', course = ''BCA'', shift = None, batch = ''2016'', contactNo = None,
       doc_id = 0, isPresent = False, checkedInAt = None\<rparr>,
      \<lparr>fullName = ''B'', course = ''BCA'', shift = None, batch = ''16'', contactNo = None,
       doc_id = 1, isPresent = False, checkedInAt = None\<rparr>]"
    by code_simp
  have 5: "normalizeBatchYear ''2016'' = normalizeBatchYear ''16''" by code_simp
  have 6: "normalizeBatchYear ''Batch 1999'' = Some 1999" by code_simp
  show ?thesis using 1 2 3 4 5 6 by (intro conjI)
qed

theorem batch_sort_by_year_witness:
  "sorted_wrt (\<lambda>a b. year_le (normalizeBatchYear (batch a)) (normalizeBatchYear (batch b)))
     (sortedDataForExport
       [\<lparr>fullName = ''A'', course = ''BCA'', shift = None, batch = ''none'', contactNo = None,
         doc_id = 0, isPresent = False, checkedInAt = None\<rparr>,
        \<lparr>fullName = ''B'', course = ''BCA'', shift = None, batch = ''9'', contactNo = None,
         doc_id = 1, isPresent = False, checkedInAt = None\<rparr>,
        \<lparr>fullName = ''C'', course = ''BCA'', shift = None, batch = ''10'', contactNo = None,
         doc_id = 2, isPresent = False, checkedInAt = None\<rparr>] ''batch'' Asc)"
  using batch_sort_by_year
    [of "[\<lparr>fullName = ''A'', course = ''BCA'', shift = None, batch = ''none'', contactNo = None,
         doc_id = 0, isPresent = False, checkedInAt = None\<rparr>,
        \<lparr>fullName = ''B'', course = ''BCA'', shift = None, batch = ''9'', contactNo = None,
         doc_id = 1, isPresent = False, checkedInAt = None\<rparr>,
        \<lparr>fullName = ''C'', course = ''BCA'', shift = None, batch = ''10'', contactNo = None,
         doc_id = 2, isPresent = False, checkedInAt = None\<rparr>]" None]
  by (rule conjunct1)

section \<open>CSV import\<close>





lemma parseRows_map_filter:
  "parseRows n c b sh ct lines data =
     data @ map (rowOfCols n c b sh ct) (filter (\<lambda>cols. truthy (cell cols n)) (map csvCols lines))"
  by (induction lines arbitrary: data) (simp_all add: Let_def rowOfCols_def)













section \<open>CSV round trip\<close>

lemma split_on_not_Nil [simp]: "split_on c s \<noteq> []"
  by (induction s) (auto split: list.splits)

lemma split_on_no_sep: "c \<notin> set x \<Longrightarrow> split_on c x = [x]"
  by (induction x) auto

lemma split_on_append: "c \<notin> set x \<Longrightarrow> split_on c (x @ c # rest) = x # split_on c rest"
  by (induction x) auto

lemma join_Cons: "ys \<noteq> [] \<Longrightarrow> join sep (x # ys) = x @ sep @ join sep ys"
  by (cases ys) auto

lemma join_snoc: "xs \<noteq> [] \<Longrightarrow> join sep (xs @ [y]) = join sep xs @ sep @ y"
proof (induction xs)
  case Nil
  then show ?case by simp
next
  case (Cons x xs)
  show ?case
  proof (cases "xs = []")
    case True
    then show ?thesis by simp
  next
    case False
    then have "join sep ((x # xs) @ [y]) = x @ sep @ join sep (xs @ [y])"
      by (simp add: join_Cons)
    also have "\<dots> = x @ sep @ join sep xs @ sep @ y" using Cons.IH [OF False] by simp
    also have "\<dots> = join sep (x # xs) @ sep @ y" using False by (simp add: join_Cons)
    finally show ?thesis .
  qed
qed

lemma split_on_join:
  "xs \<noteq> [] \<Longrightarrow> \<forall>x\<in>set xs. c \<notin> set x \<Longrightarrow> split_on c (join [c] xs) = xs"
proof (induction xs)
  case Nil
  then show ?case by simp
next
  case (Cons x xs)
  show ?case
  proof (cases "xs = []")
    case True
    then show ?thesis using Cons.prems by (simp add: split_on_no_sep)
  next
    case False
    have "join [c] (x # xs) = x @ c # join [c] xs" using False by (simp add: join_Cons)
    then show ?thesis using Cons False by (simp add: split_on_append)
  qed
qed

lemma join_exportRow: "join '','' (exportRow f a) = rowText a (checkedInCell f a)"
  by (simp add: exportRow_def rowText_def checkedInCell_def)

lemma rtrim_append:
  "\<not> isWhiteSpace c \<Longrightarrow> rtrim (X @ c # z) = X @ c # rtrim z"
  by (simp add: rtrim_def dropWhile_append)

lemma set_rtrim: "set (rtrim z) \<subseteq> set z"
  unfolding rtrim_def using set_dropWhileD by fastforce

lemma trim_rtrim: "s \<noteq> [] \<Longrightarrow> \<not> isWhiteSpace (hd s) \<Longrightarrow> trim s = rtrim s"
  by (simp add: trim_def rtrim_def dropWhile_hd_id)

lemma hd_join: "x \<noteq> [] \<Longrightarrow> hd (join sep (x # xs)) = hd x"
  by (cases xs) auto

lemma csvCols_rowText:
  assumes "exportable_split a"
  shows "csvCols (rowText a z) =
    fullName a # course a # orEmpty (shift a) # batch a # orEmpty (contactNo a) #
    (if isPresent a then ''Yes'' else ''No'') # map trim (split_on CHR '','' z)"
proof -
  from assms have c: "CHR '','' \<notin> set (fullName a)" "CHR '','' \<notin> set (course a)"
    "CHR '','' \<notin> set (orEmpty (shift a))" "CHR '','' \<notin> set (batch a)"
    "CHR '','' \<notin> set (orEmpty (contactNo a))"
    and t: "trimmed (fullName a)" "trimmed (course a)" "trimmed (orEmpty (shift a))"
      "trimmed (batch a)" "trimmed (orEmpty (contactNo a))"
    by (simp_all add: exportable_split_def clean_def)
  have y: "CHR '','' \<notin> set (if isPresent a then ''Yes'' else ''No'')" by simp
  have "split_on CHR '','' (rowText a z) =
    fullName a # course a # orEmpty (shift a) # batch a # orEmpty (contactNo a) #
    (if isPresent a then ''Yes'' else ''No'') # split_on CHR '','' z"
    unfolding rowText_def
    by (simp only: split_on_append [OF c(1)] split_on_append [OF c(2)] split_on_append [OF c(3)]
        split_on_append [OF c(4)] split_on_append [OF c(5)] split_on_append [OF y])
  moreover have "trim (if isPresent a then ''Yes'' else ''No'') = (if isPresent a then ''Yes'' else ''No'')"
    by (simp add: trim_def isWhiteSpace_def)
  ultimately show ?thesis
    using t by (simp add: csvCols_def trim_trimmed)
qed

lemma rowOfCols_rowText:
  assumes "exportable_split a"
  shows "truthy (cell (csvCols (rowText a z)) 0) \<and>
    rowOfCols 0 1 3 (Some 2) (Some 4) (csvCols (rowText a z)) = reimported a"
proof -
  have "fullName a \<noteq> []" using assms by (simp add: exportable_split_def)
  then show ?thesis
    by (simp add: csvCols_rowText [OF assms] cell_def truthy_def rowOfCols_def reimported_def orEmpty_def)
qed

lemma rows_reimported:
  assumes "\<forall>p\<in>set ps. exportable_split (fst p)"
  shows "map (rowOfCols 0 1 3 (Some 2) (Some 4))
           (filter (\<lambda>cols. truthy (cell cols 0)) (map csvCols (map (\<lambda>p. rowText (fst p) (snd p)) ps))) =
         map (\<lambda>p. reimported (fst p)) ps"
  using assms
proof (induction ps)
  case Nil
  then show ?case by simp
next
  case (Cons p ps)
  from Cons.prems have e: "exportable_split (fst p)" by simp
  note r = rowOfCols_rowText [OF e, of "snd p"]
  from Cons.prems have "\<forall>p\<in>set ps. exportable_split (fst p)" by simp
  from Cons.IH [OF this] r show ?case by simp
qed

lemma no_newline_rowText:
  assumes "exportable_split a" "CHR 0x0A \<notin> set z"
  shows "CHR 0x0A \<notin> set (rowText a z)"
  using assms by (auto simp: exportable_split_def clean_def rowText_def)

lemma export_headers_line:
  "join '','' exportHeaders = ''Full Name,Course,Shift,Batch,Contact No.,Present,Checked In At''"
  by (simp add: exportHeaders_def)

lemma export_headers_parsed:
  "map (\<lambda>h. toLowerCase (trim h))
     (split_on CHR '','' ''Full Name,Course,Shift,Batch,Contact No.,Present,Checked In At'') =
   [''full name'', ''course'', ''shift'', ''batch'', ''contact no.'', ''present'', ''checked in at'']"
  by code_simp

lemma export_headers_indices:
  "findIndex (\<lambda>h. includes_str h ''name'')
     [''full name'', ''course'', ''shift'', ''batch'', ''contact no.'', ''present'', ''checked in at''] = Some 0"
  "findIndex (\<lambda>h. includes_str h ''course'' \<or> includes_str h ''program'')
     [''full name'', ''course'', ''shift'', ''batch'', ''contact no.'', ''present'', ''checked in at''] = Some 1"
  "findIndex (\<lambda>h. includes_str h ''batch'' \<or> includes_str h ''year'')
     [''full name'', ''course'', ''shift'', ''batch'', ''contact no.'', ''present'', ''checked in at''] = Some 3"
  "findIndex (\<lambda>h. includes_str h ''shift'')
     [''full name'', ''course'', ''shift'', ''batch'', ''contact no.'', ''present'', ''checked in at''] = Some 2"
  "findIndex (\<lambda>h. includes_str h ''contact'' \<or> includes_str h ''phone'' \<or> includes_str h ''mobile'')
     [''full name'', ''course'', ''shift'', ''batch'', ''contact no.'', ''present'', ''checked in at''] = Some 4"
  by code_simp+

text \<open>
  The parser that cuts the text by hand reads back what the export wrote for a non-empty
  collection of records with clean fields, when the rendering of the check-in time holds
  no line feed: the five fields of every record, in order, a missing shift or contact
  number as the empty string. The presence and the time columns are not read.
\<close>

lemma export_round_trip:
  assumes ne: "as \<noteq> []" and ex: "list_all exportable_split as"
    and nl: "\<And>t. CHR 0x0A \<notin> set (f t)"
  shows "\<exists>txt. exportCSV f as = Some txt \<and> parseCSV_split txt = (None, map reimported as)"
proof -
  let ?H = "''Full Name,Course,Shift,Batch,Contact No.,Present,Checked In At''"
  let ?hs = "[''full name'', ''course'', ''shift'', ''batch'', ''contact no.'', ''present'', ''checked in at'']"
  let ?ts = "checkedInCell f"
  define T where "T = join [CHR 0x0A] (?H # map (\<lambda>a. rowText a (?ts a)) as)"
  have exp: "exportCSV f as = Some T"
    using ne by (simp add: exportCSV_def T_def join_exportRow export_headers_line)
  obtain bs l where as: "as = bs @ [l]" using ne by (metis rev_exhaust)
  have exl: "exportable_split l" and exb: "\<forall>a\<in>set bs. exportable_split a"
    using ex as by (simp_all add: list_all_iff)
  have nlts: "CHR 0x0A \<notin> set (?ts a)" for a
    using nl by (simp add: checkedInCell_def split: option.splits)
  define B where "B = ?H # map (\<lambda>a. rowText a (?ts a)) bs"
  define X where "X = join [CHR 0x0A] B @ [CHR 0x0A] @
     fullName l @ CHR '','' # course l @ CHR '','' # orEmpty (shift l) @ CHR '','' # batch l @
     CHR '','' # orEmpty (contactNo l) @ CHR '','' # (if isPresent l then ''Yes'' else ''No'')"
  have Bne: "B \<noteq> []" by (simp add: B_def)
  have T1: "T = join [CHR 0x0A] B @ [CHR 0x0A] @ rowText l (?ts l)"
    using join_snoc [OF Bne, of "[CHR 0x0A]" "rowText l (?ts l)"] by (simp add: T_def as B_def)
  have TX: "T = X @ CHR '','' # ?ts l"
    by (simp add: T1 X_def rowText_def)
  have hdB: "hd (join [CHR 0x0A] B) = CHR ''F''"
    unfolding B_def by (subst hd_join) simp_all
  have jB: "join [CHR 0x0A] B \<noteq> []"
    unfolding B_def by (cases bs) simp_all
  have hdT: "T \<noteq> [] \<and> hd T = CHR ''F''"
    using hdB jB by (simp add: T1)
  have "\<not> isWhiteSpace (CHR ''F'')" by (simp add: isWhiteSpace_def)
  then have "trim T = rtrim T" using hdT by (simp add: trim_rtrim)
  also have "\<dots> = X @ CHR '','' # rtrim (?ts l)"
    unfolding TX by (rule rtrim_append) (simp add: isWhiteSpace_def)
  also have "\<dots> = join [CHR 0x0A] B @ [CHR 0x0A] @ rowText l (rtrim (?ts l))"
    by (simp add: X_def rowText_def)
  also have "\<dots> = join [CHR 0x0A] (B @ [rowText l (rtrim (?ts l))])"
    using join_snoc [OF Bne, of "[CHR 0x0A]" "rowText l (rtrim (?ts l))"] by simp
  finally have trimT: "trim T = join [CHR 0x0A] (B @ [rowText l (rtrim (?ts l))])" .
  define ps where "ps = map (\<lambda>a. (a, ?ts a)) bs @ [(l, rtrim (?ts l))]"
  have lines_eq: "B @ [rowText l (rtrim (?ts l))] = ?H # map (\<lambda>p. rowText (fst p) (snd p)) ps"
    by (simp add: B_def ps_def comp_def)
  have ps_ex: "\<forall>p\<in>set ps. exportable_split (fst p)"
    using exl exb by (auto simp: ps_def)
  have ps_nl: "\<forall>p\<in>set ps. CHR 0x0A \<notin> set (snd p)"
    using nlts set_rtrim [of "?ts l"] by (auto simp: ps_def)
  have no_nl: "\<forall>x\<in>set (?H # map (\<lambda>p. rowText (fst p) (snd p)) ps). CHR 0x0A \<notin> set x"
    using ps_ex ps_nl no_newline_rowText by auto
  have lines: "csvLines T = ?H # map (\<lambda>p. rowText (fst p) (snd p)) ps"
    unfolding csvLines_def trimT lines_eq by (rule split_on_join [OF _ no_nl]) simp
  have len: "\<not> length (csvLines T) < 2" by (simp add: lines ps_def)
  have hs: "csvHeaders T = ?hs"
    unfolding csvHeaders_def lines by (simp only: list.sel export_headers_parsed)
  have fst_ps: "map (\<lambda>p. reimported (fst p)) ps = map reimported as"
    by (simp add: ps_def as comp_def)
  have "parseCSV_split T =
      (None, map (rowOfCols 0 1 3 (Some 2) (Some 4))
               (filter (\<lambda>cols. truthy (cell cols 0))
                  (map csvCols (map (\<lambda>p. rowText (fst p) (snd p)) ps))))"
    unfolding parseCSV_split_def Let_def hs export_headers_indices
    using len by (simp add: lines parseRows_map_filter)
  also have "\<dots> = (None, map reimported as)"
    by (simp only: rows_reimported [OF ps_ex] fst_ps)
  finally show ?thesis using exp by blast
qed















end
